theory Spec2Isabelle
  imports Main "HOL-Library.Word"
begin

unbundle bit_operations_syntax

section \<open>The channel mixer of SDL\_mixer/mixer.c\<close>

text \<open>
  The development embeds the channel bank of \<^verbatim>\<open>src/SDL_mixer/mixer.c\<close>: the control
  operations on channels, chunk destruction, channel allocation and the mixing callback.

  Conventions of the embedding.
  \<^item> A C \<^verbatim>\<open>int\<close> is an \<^typ>\<open>int\<close>; signed overflow is undefined in C and no function
    below computes a value that a claim pushes out of range. A \<^verbatim>\<open>uint32_t\<close> is a
    \<^typ>\<open>32 word\<close>, so tick arithmetic wraps as in the source. Where the source mixes both
    (\<^verbatim>\<open>int * uint32_t\<close>, \<^verbatim>\<open>paused = sdl_ticks\<close>) the usual conversions are written
    out with \<^const>\<open>word_of_int\<close> and \<^const>\<open>sint\<close>.
  \<^item> Pointers are addresses: a chunk pointer is a \<^typ>\<open>nat option\<close> (\<open>None\<close> is
    \<^verbatim>\<open>NULL\<close>) into the store \<open>chunks\<close> of the mixer; sample pointers are integers.
  \<^item> The global state of the file is the record \<open>mixer\<close>. The array \<^verbatim>\<open>mix_channel\<close>
    is a list (its length is the allocated size; \<open>None\<close> is the \<^verbatim>\<open>NULL\<close> array) and
    \<^verbatim>\<open>num_channels\<close> is kept beside it, as in the source.
  \<^item> What the source does to the outside world is appended to \<open>trace\<close>: a call of the
    registered channel-finished callback, a call of \<^verbatim>\<open>SDL_MixAudio\<close> (tagged with the
    channel it serves), a \<^verbatim>\<open>free\<close> of a sample buffer.
  \<^item> An access outside the array, a dereference of a null or dangling chunk pointer, a
    division by zero, a loop that cannot exit and a call of \<^verbatim>\<open>SDL_MixAudio\<close> with a
    negative length are values of type \<open>fault\<close>; every operation returns
    \<open>fault + result\<close>.
  \<^item> Music mixing, the effect callbacks and the contents of the output stream do not touch
    the channel bank and are left out.
\<close>

subsection \<open>Data\<close>

datatype Mix_Fading = MIX_NO_FADING | MIX_FADING_OUT | MIX_FADING_IN

text \<open>
  Modelled from the spec: the header \<^verbatim>\<open>SDL_mixer.h\<close> is not among the sources. The spec's
  chunk owns a sample buffer, its length in bytes, a volume attenuation factor and an
  allocated flag; the volume bound \<open>MAX\<close> of the spec is SDL's 128.
\<close>

record Mix_Chunk =
  allocated :: int
  abuf :: int
  alen :: nat
  chunk_volume :: int

definition SDL_MIX_MAXVOLUME :: int where
  "SDL_MIX_MAXVOLUME = 128"

definition MIX_MAX_VOLUME :: int where
  "MIX_MAX_VOLUME = 128"

record Mix_Channel =
  chunk :: "nat option"
  playing :: int
  paused :: int
  samples :: int
  volume :: int
  looping :: int
  tag :: int
  expire :: "32 word"
  start_time :: "32 word"
  fading :: Mix_Fading
  fade_volume :: int
  fade_volume_reset :: int
  fade_length :: "32 word"
  ticks_fade :: "32 word"
  effects :: "nat list"

text \<open>
  \<open>Channel_Done i\<close>: the registered callback is called with channel \<open>i\<close>.
  \<open>Mix_Audio i index src len vol\<close>: \<^verbatim>\<open>SDL_MixAudio(stream + index, src, len, vol)\<close>, called
  for channel \<open>i\<close>, where \<open>src\<close> is the address the samples are taken from (the effects, left out here,
  work on a copy of them). \<open>Free_Mem a\<close>: \<^verbatim>\<open>free\<close> of the sample buffer at \<open>a\<close>.
\<close>

datatype event =
    Channel_Done int
  | Mix_Audio int int int int int
  | Free_Mem int

datatype fault =
  Out_Of_Bounds int | Null_Bank | Bad_Chunk | Div_By_Zero | No_Exit | Buffer_Overrun

record mixer =
  mix_channel :: "Mix_Channel list option"
  num_channels :: int
  reserved_channels :: int
  channel_done_callback :: bool
  mixer_format :: "16 word"
  mixer_channels :: nat
  chunks :: "nat \<Rightarrow> Mix_Chunk option"
  trace :: "event list"

subsection \<open>C arithmetic\<close>

definition c_div :: "int \<Rightarrow> int \<Rightarrow> int" where
  "c_div a b = sgn a * sgn b * (\<bar>a\<bar> div \<bar>b\<bar>)"

text \<open>
  The length of a chunk is a 32-bit unsigned number in the source: \<^verbatim>\<open>Mix_LoadWAV_RW\<close>
  hands \<^verbatim>\<open>&chunk->alen\<close> to \<^verbatim>\<open>SDL_LoadWAV_RW\<close> as the address of the length, and
  \<^verbatim>\<open>Mix_QuickLoad_WAV\<close> assembles it from four bytes. Where the source copies it into
  an \<^verbatim>\<open>int\<close> (\<^verbatim>\<open>playing\<close>, the local \<^verbatim>\<open>alen\<close> of the second mixing loop) the 32 bits
  are read as a signed number: a length of \<open>2 ^ 31\<close> or more becomes negative.
\<close>

definition alen32 :: "Mix_Chunk \<Rightarrow> 32 word" where
  "alen32 ck = word_of_nat (alen ck)"

subsection \<open>Access to the channel array\<close>

text \<open>\<^verbatim>\<open>_Mix_channel_done_playing\<close>: the callback is called when one is registered.\<close>

definition Mix_channel_done_playing :: "bool \<Rightarrow> int \<Rightarrow> event list" where
  "Mix_channel_done_playing cb channel = (if cb then [Channel_Done channel] else [])"

text \<open>Reading \<^verbatim>\<open>mix_channel[i]\<close>.\<close>

definition channel_at :: "mixer \<Rightarrow> int \<Rightarrow> fault + Mix_Channel" where
  "channel_at s i =
     (case mix_channel s of
        None \<Rightarrow> Inl Null_Bank
      | Some chs \<Rightarrow>
          if 0 \<le> i \<and> i < int (length chs) then Inr (chs ! nat i) else Inl (Out_Of_Bounds i))"

text \<open>
  A statement block that reads and writes the fields of \<^verbatim>\<open>mix_channel[i]\<close> only: \<open>f\<close>
  gives the new fields and the calls made meanwhile.
\<close>

definition update_channel ::
  "int \<Rightarrow> (Mix_Channel \<Rightarrow> fault + Mix_Channel \<times> event list) \<Rightarrow> mixer \<Rightarrow> fault + mixer" where
  "update_channel i f s =
     (case mix_channel s of
        None \<Rightarrow> Inl Null_Bank
      | Some chs \<Rightarrow>
          if 0 \<le> i \<and> i < int (length chs) then
            (case f (chs ! nat i) of
               Inl e \<Rightarrow> Inl e
             | Inr (c, ev) \<Rightarrow>
                 Inr (s\<lparr>mix_channel := Some (chs[nat i := c]), trace := trace s @ ev\<rparr>))
          else Inl (Out_Of_Bounds i))"

text \<open>
  \<^verbatim>\<open>for (i = lo; i < hi; ++i) body(i)\<close>. The bound of every such loop of the source is
  \<^verbatim>\<open>num_channels\<close> (or the argument of the resize), which no loop body changes.
\<close>

function for_channels ::
  "(int \<Rightarrow> mixer \<Rightarrow> fault + mixer) \<Rightarrow> int \<Rightarrow> int \<Rightarrow> mixer \<Rightarrow> fault + mixer" where
  "for_channels body i hi s =
     (if i < hi then
        (case body i s of Inl e \<Rightarrow> Inl e | Inr s' \<Rightarrow> for_channels body (i + 1) hi s')
      else Inr s)"
  by pat_completeness auto
termination
  by (relation "measure (\<lambda>(body, i, hi, s). nat (hi - i))") auto

subsection \<open>Volume\<close>

text \<open>The body of the single-channel branch of \<^verbatim>\<open>Mix_Volume\<close>.\<close>

definition set_volume :: "int \<Rightarrow> Mix_Channel \<Rightarrow> Mix_Channel" where
  "set_volume v c =
     (if v \<ge> 0 then
        c\<lparr>volume := (if v > SDL_MIX_MAXVOLUME then SDL_MIX_MAXVOLUME else v)\<rparr>
      else c)"

definition Mix_Volume_one :: "int \<Rightarrow> int \<Rightarrow> mixer \<Rightarrow> fault + int \<times> mixer" where
  "Mix_Volume_one which v s =
     (if which < num_channels s then
        (case channel_at s which of
           Inl e \<Rightarrow> Inl e
         | Inr c \<Rightarrow>
             (case update_channel which (\<lambda>c. Inr (set_volume v c, [])) s of
                Inl e \<Rightarrow> Inl e
              | Inr s' \<Rightarrow> Inr (volume c, s')))
      else Inr (0, s))"

function Mix_Volume_all :: "int \<Rightarrow> int \<Rightarrow> int \<Rightarrow> int \<Rightarrow> mixer \<Rightarrow> fault + int \<times> mixer" where
  "Mix_Volume_all v i hi prev_volume s =
     (if i < hi then
        (case Mix_Volume_one i v s of
           Inl e \<Rightarrow> Inl e
         | Inr (p, s') \<Rightarrow> Mix_Volume_all v (i + 1) hi (prev_volume + p) s')
      else Inr (prev_volume, s))"
  by pat_completeness auto
termination
  by (relation "measure (\<lambda>(v, i, hi, p, s). nat (hi - i))") auto

definition Mix_Volume :: "int \<Rightarrow> int \<Rightarrow> mixer \<Rightarrow> fault + int \<times> mixer" where
  "Mix_Volume which v s =
     (if which = -1 then
        (case Mix_Volume_all v 0 (num_channels s) 0 s of
           Inl e \<Rightarrow> Inl e
         | Inr (prev_volume, s') \<Rightarrow>
             if num_channels s = 0 then Inl Div_By_Zero
             else Inr (c_div prev_volume (num_channels s), s'))
      else Mix_Volume_one which v s)"

subsection \<open>Halt, status, pause, resume, group\<close>

definition halt_channel :: "bool \<Rightarrow> int \<Rightarrow> Mix_Channel \<Rightarrow> Mix_Channel \<times> event list" where
  "halt_channel cb which c =
     (let c1 = (if playing c \<noteq> 0 then c\<lparr>playing := 0, looping := 0\<rparr> else c);
          ev = (if playing c \<noteq> 0 then Mix_channel_done_playing cb which else []);
          c2 = c1\<lparr>expire := 0\<rparr>;
          c3 = (if fading c2 \<noteq> MIX_NO_FADING then c2\<lparr>volume := fade_volume_reset c2\<rparr> else c2)
      in (c3\<lparr>fading := MIX_NO_FADING\<rparr>, ev))"

definition Mix_HaltChannel_one :: "int \<Rightarrow> mixer \<Rightarrow> fault + mixer" where
  "Mix_HaltChannel_one which s =
     (if which < num_channels s then
        update_channel which (\<lambda>c. Inr (halt_channel (channel_done_callback s) which c)) s
      else Inr s)"

text \<open>\<^verbatim>\<open>Mix_HaltChannel\<close> always returns 0; the model returns the state.\<close>

definition Mix_HaltChannel :: "int \<Rightarrow> mixer \<Rightarrow> fault + mixer" where
  "Mix_HaltChannel which s =
     (if which = -1 then for_channels Mix_HaltChannel_one 0 (num_channels s) s
      else Mix_HaltChannel_one which s)"

definition is_active :: "Mix_Channel \<Rightarrow> bool" where
  "is_active c \<longleftrightarrow> playing c > 0 \<or> looping c \<noteq> 0"

function Mix_Playing_all :: "int \<Rightarrow> int \<Rightarrow> int \<Rightarrow> mixer \<Rightarrow> fault + int" where
  "Mix_Playing_all i hi status s =
     (if i < hi then
        (case channel_at s i of
           Inl e \<Rightarrow> Inl e
         | Inr c \<Rightarrow> Mix_Playing_all (i + 1) hi (if is_active c then status + 1 else status) s)
      else Inr status)"
  by pat_completeness auto
termination
  by (relation "measure (\<lambda>(i, hi, st, s). nat (hi - i))") auto

definition Mix_Playing :: "int \<Rightarrow> mixer \<Rightarrow> fault + int" where
  "Mix_Playing which s =
     (if which = -1 then Mix_Playing_all 0 (num_channels s) 0 s
      else if which < num_channels s then
        (case channel_at s which of
           Inl e \<Rightarrow> Inl e
         | Inr c \<Rightarrow> Inr (if is_active c then 1 else 0))
      else Inr 0)"

definition pause_channel :: "32 word \<Rightarrow> Mix_Channel \<Rightarrow> Mix_Channel" where
  "pause_channel sdl_ticks c = (if playing c > 0 then c\<lparr>paused := sint sdl_ticks\<rparr> else c)"

definition Mix_Pause_one :: "32 word \<Rightarrow> int \<Rightarrow> mixer \<Rightarrow> fault + mixer" where
  "Mix_Pause_one sdl_ticks which s =
     update_channel which (\<lambda>c. Inr (pause_channel sdl_ticks c, [])) s"

definition Mix_Pause :: "32 word \<Rightarrow> int \<Rightarrow> mixer \<Rightarrow> fault + mixer" where
  "Mix_Pause sdl_ticks which s =
     (if which = -1 then for_channels (Mix_Pause_one sdl_ticks) 0 (num_channels s) s
      else if which < num_channels s then Mix_Pause_one sdl_ticks which s
      else Inr s)"

definition resume_channel :: "32 word \<Rightarrow> Mix_Channel \<Rightarrow> Mix_Channel" where
  "resume_channel sdl_ticks c =
     (if playing c > 0 then
        (let c1 = (if expire c > 0
                   then c\<lparr>expire := expire c + (sdl_ticks - word_of_int (paused c))\<rparr>
                   else c)
         in c1\<lparr>paused := 0\<rparr>)
      else c)"

definition Mix_Resume_one :: "32 word \<Rightarrow> int \<Rightarrow> mixer \<Rightarrow> fault + mixer" where
  "Mix_Resume_one sdl_ticks which s =
     update_channel which (\<lambda>c. Inr (resume_channel sdl_ticks c, [])) s"

definition Mix_Resume :: "32 word \<Rightarrow> int \<Rightarrow> mixer \<Rightarrow> fault + mixer" where
  "Mix_Resume sdl_ticks which s =
     (if which = -1 then for_channels (Mix_Resume_one sdl_ticks) 0 (num_channels s) s
      else if which < num_channels s then Mix_Resume_one sdl_ticks which s
      else Inr s)"

definition Mix_GroupChannel :: "int \<Rightarrow> int \<Rightarrow> mixer \<Rightarrow> fault + int \<times> mixer" where
  "Mix_GroupChannel which t s =
     (if which < 0 \<or> which > num_channels s then Inr (0, s)
      else
        (case update_channel which (\<lambda>c. Inr (c\<lparr>tag := t\<rparr>, [])) s of
           Inl e \<Rightarrow> Inl e
         | Inr s' \<Rightarrow> Inr (1, s')))"

subsection \<open>Playing a chunk\<close>

definition frame_width :: "mixer \<Rightarrow> nat" where
  "frame_width s = (if mixer_format s AND 0xFF = 16 then 2 else 1) * mixer_channels s"

text \<open>\<^verbatim>\<open>while (chunk->alen % frame_width) chunk->alen--;\<close>\<close>

function truncate_alen :: "nat \<Rightarrow> nat \<Rightarrow> nat" where
  "truncate_alen fw a = (if a mod fw \<noteq> 0 then truncate_alen fw (a - 1) else a)"
  by pat_completeness auto
termination
proof (relation "measure (\<lambda>(fw, a). a)")
  fix fw a :: nat
  assume "a mod fw \<noteq> 0"
  then have "a \<noteq> 0" by (cases "a = 0") simp_all
  then show "((fw, a - 1), (fw, a)) \<in> measure (\<lambda>(fw, a). a)" by simp
qed simp

text \<open>
  \<^verbatim>\<open>checkchunkintegral\<close> writes the truncated length into the chunk and returns it; the
  model returns the chunk. A frame width of zero makes the first \<^verbatim>\<open>%\<close> a division by zero.
\<close>

definition checkchunkintegral :: "mixer \<Rightarrow> Mix_Chunk \<Rightarrow> fault + Mix_Chunk" where
  "checkchunkintegral s ck =
     (if frame_width s = 0 then Inl Div_By_Zero
      else Inr (ck\<lparr>alen := truncate_alen (frame_width s) (alen ck)\<rparr>))"

text \<open>The search for a free channel, \<^verbatim>\<open>for (i = reserved_channels; i < num_channels; ++i)\<close>.\<close>

function first_free :: "int \<Rightarrow> mixer \<Rightarrow> fault + int" where
  "first_free i s =
     (if i < num_channels s then
        (case channel_at s i of
           Inl e \<Rightarrow> Inl e
         | Inr c \<Rightarrow> if playing c \<le> 0 then Inr i else first_free (i + 1) s)
      else Inr i)"
  by pat_completeness auto
termination
  by (relation "measure (\<lambda>(i, s). nat (num_channels s - i))") auto

definition start_channel ::
  "32 word \<Rightarrow> Mix_Chunk \<Rightarrow> nat \<Rightarrow> int \<Rightarrow> int \<Rightarrow> Mix_Channel \<Rightarrow> Mix_Channel" where
  "start_channel sdl_ticks ck p loops ticks c =
     c\<lparr>samples := abuf ck,
       playing := sint (alen32 ck),
       looping := loops,
       chunk := Some p,
       paused := 0,
       fading := MIX_NO_FADING,
       start_time := sdl_ticks,
       expire := (if ticks > 0 then sdl_ticks + word_of_int ticks else 0)\<rparr>"

definition Mix_PlayChannelTimed ::
  "32 word \<Rightarrow> int \<Rightarrow> nat option \<Rightarrow> int \<Rightarrow> int \<Rightarrow> mixer \<Rightarrow> fault + int \<times> mixer" where
  "Mix_PlayChannelTimed sdl_ticks which chunkp loops ticks s =
     (case chunkp of
        None \<Rightarrow> Inr (-1, s)
      | Some p \<Rightarrow>
          (case chunks s p of
             None \<Rightarrow> Inl Bad_Chunk
           | Some ck \<Rightarrow>
               (case checkchunkintegral s ck of
                  Inl e \<Rightarrow> Inl e
                | Inr ck' \<Rightarrow>
                    (let s1 = s\<lparr>chunks := (chunks s)(p \<mapsto> ck')\<rparr> in
                     if alen ck' = 0 then Inr (-1, s1)
                     else
                       (case (if which = -1 then
                                (case first_free (reserved_channels s1) s1 of
                                   Inl e \<Rightarrow> Inl e
                                 | Inr i \<Rightarrow> Inr (if i = num_channels s1 then -1 else i))
                              else Inr which) of
                          Inl e \<Rightarrow> Inl e
                        | Inr w \<Rightarrow>
                            if w \<ge> 0 \<and> w < num_channels s1 then
                              (case Mix_Playing w s1 of
                                 Inl e \<Rightarrow> Inl e
                               | Inr st \<Rightarrow>
                                   (case update_channel w
                                           (\<lambda>c. Inr (start_channel sdl_ticks ck' p loops ticks c,
                                                     if st \<noteq> 0
                                                     then Mix_channel_done_playing
                                                            (channel_done_callback s1) w
                                                     else [])) s1 of
                                      Inl e \<Rightarrow> Inl e
                                    | Inr s2 \<Rightarrow> Inr (w, s2)))
                            else Inr (w, s1))))))"

subsection \<open>Destroying a chunk\<close>

definition stop_if_chunk :: "nat \<Rightarrow> Mix_Channel \<Rightarrow> Mix_Channel" where
  "stop_if_chunk p c = (if Some p = chunk c then c\<lparr>playing := 0, looping := 0\<rparr> else c)"

text \<open>The first half of \<^verbatim>\<open>Mix_FreeChunk\<close>: guarantee that the chunk is not playing.\<close>

definition free_stop_channels :: "nat \<Rightarrow> mixer \<Rightarrow> fault + mixer" where
  "free_stop_channels p s =
     (case mix_channel s of
        None \<Rightarrow> Inr s
      | Some chs \<Rightarrow>
          for_channels (\<lambda>i. update_channel i (\<lambda>c. Inr (stop_if_chunk p c, []))) 0
            (num_channels s) s)"

text \<open>
  The second half: \<^verbatim>\<open>if (chunk->allocated) free(chunk->abuf); free(chunk);\<close>. Freeing the
  buffer is an event; freeing the chunk takes it out of the store.
\<close>

definition free_release :: "nat \<Rightarrow> mixer \<Rightarrow> fault + mixer" where
  "free_release p s =
     (case chunks s p of
        None \<Rightarrow> Inl Bad_Chunk
      | Some ck \<Rightarrow>
          Inr (s\<lparr>chunks := (chunks s)(p := None),
                 trace := trace s @ (if allocated ck \<noteq> 0 then [Free_Mem (abuf ck)] else [])\<rparr>))"

definition Mix_FreeChunk :: "nat option \<Rightarrow> mixer \<Rightarrow> fault + mixer" where
  "Mix_FreeChunk chunkp s =
     (case chunkp of
        None \<Rightarrow> Inr s
      | Some p \<Rightarrow>
          (case free_stop_channels p s of
             Inl e \<Rightarrow> Inl e
           | Inr s1 \<Rightarrow> free_release p s1))"

subsection \<open>Resizing the channel bank\<close>

definition init_channel :: "Mix_Channel \<Rightarrow> Mix_Channel" where
  "init_channel c =
     c\<lparr>chunk := None,
       playing := 0,
       looping := 0,
       volume := SDL_MIX_MAXVOLUME,
       fade_volume := SDL_MIX_MAXVOLUME,
       fade_volume_reset := SDL_MIX_MAXVOLUME,
       fading := MIX_NO_FADING,
       tag := -1,
       expire := 0,
       effects := [],
       paused := 0\<rparr>"

text \<open>
  \<^verbatim>\<open>realloc\<close> keeps the elements that fit and leaves the new ones as the allocator
  returned them: \<open>junk i\<close> is what the memory of element \<open>i\<close> holds. The allocation is
  taken to succeed.
\<close>

definition realloc_channels ::
  "(nat \<Rightarrow> Mix_Channel) \<Rightarrow> nat \<Rightarrow> Mix_Channel list option \<Rightarrow> Mix_Channel list option" where
  "realloc_channels junk n old =
     (let chs = (case old of None \<Rightarrow> [] | Some chs \<Rightarrow> chs)
      in Some (take n chs @ map junk [length chs ..< n]))"

definition Mix_AllocateChannels ::
  "(nat \<Rightarrow> Mix_Channel) \<Rightarrow> int \<Rightarrow> mixer \<Rightarrow> fault + int \<times> mixer" where
  "Mix_AllocateChannels junk numchans s =
     (if numchans < 0 \<or> numchans = num_channels s then Inr (num_channels s, s)
      else
        (case (if numchans < num_channels s
               then for_channels Mix_HaltChannel numchans (num_channels s) s
               else Inr s) of
           Inl e \<Rightarrow> Inl e
         | Inr s1 \<Rightarrow>
             (let s2 = s1\<lparr>mix_channel :=
                           realloc_channels junk (nat numchans) (mix_channel s1)\<rparr>
              in (case (if numchans > num_channels s2
                        then for_channels
                               (\<lambda>i. update_channel i (\<lambda>c. Inr (init_channel c, [])))
                               (num_channels s2) numchans s2
                        else Inr s2) of
                    Inl e \<Rightarrow> Inl e
                  | Inr s3 \<Rightarrow> Inr (numchans, s3\<lparr>num_channels := numchans\<rparr>)))))"

subsection \<open>The mixing callback\<close>

definition chunk_of :: "(nat \<Rightarrow> Mix_Chunk option) \<Rightarrow> Mix_Channel \<Rightarrow> Mix_Chunk option" where
  "chunk_of heap c = (case chunk c of None \<Rightarrow> None | Some p \<Rightarrow> heap p)"

text \<open>
  The expiration and fade checks of one unpaused channel. The fade volumes are computed
  in \<^verbatim>\<open>uint32_t\<close> (an \<^verbatim>\<open>int\<close> times a \<^verbatim>\<open>uint32_t\<close>) and handed to \<^verbatim>\<open>Mix_Volume\<close> as an
  \<^verbatim>\<open>int\<close>; a fade length of zero with no tick elapsed divides by zero.
\<close>

definition expire_fade ::
  "bool \<Rightarrow> 32 word \<Rightarrow> int \<Rightarrow> Mix_Channel \<Rightarrow> fault + Mix_Channel \<times> event list" where
  "expire_fade cb sdl_ticks i c =
     (if expire c > 0 \<and> expire c < sdl_ticks then
        Inr (c\<lparr>playing := 0, looping := 0, fading := MIX_NO_FADING, expire := 0\<rparr>,
             Mix_channel_done_playing cb i)
      else if fading c \<noteq> MIX_NO_FADING then
        (let ticks = sdl_ticks - ticks_fade c in
         if ticks > fade_length c then
           (let c1 = set_volume (fade_volume_reset c) c in
            if fading c1 = MIX_FADING_OUT then
              Inr (c1\<lparr>playing := 0, looping := 0, expire := 0, fading := MIX_NO_FADING\<rparr>,
                   Mix_channel_done_playing cb i)
            else Inr (c1\<lparr>fading := MIX_NO_FADING\<rparr>, []))
         else if fade_length c = 0 then Inl Div_By_Zero
         else if fading c = MIX_FADING_OUT then
           Inr (set_volume
                  (sint ((word_of_int (fade_volume c) * (fade_length c - ticks))
                         div fade_length c)) c, [])
         else
           Inr (set_volume
                  (sint ((word_of_int (fade_volume c) * ticks) div fade_length c)) c, []))
      else Inr (c, []))"

text \<open>
  The first loop, \<^verbatim>\<open>while (playing > 0 && index < len)\<close>. It returns the index reached,
  the local \<^verbatim>\<open>volume\<close>, the channel and the calls made. The local \<^verbatim>\<open>volume\<close> of the
  source lives across channels; the second loop reads it only when \<open>index < len\<close>, and
  then the first loop of the same channel has assigned it (the block is entered with
  \<open>playing > 0\<close> and \<open>index = 0\<close>), so each channel may start from the initial value.
\<close>

function mix_playing ::
  "bool \<Rightarrow> (nat \<Rightarrow> Mix_Chunk option) \<Rightarrow> int \<Rightarrow> int \<Rightarrow> int \<Rightarrow> int \<Rightarrow> Mix_Channel \<Rightarrow>
     fault + int \<times> int \<times> Mix_Channel \<times> event list" where
  "mix_playing cb heap len i index vol c =
     (if playing c > 0 \<and> index < len then
        (case chunk_of heap c of
           None \<Rightarrow> Inl Bad_Chunk
         | Some ck \<Rightarrow>
             (let remaining = len - index;
                  volume' = c_div (volume c * chunk_volume ck) MIX_MAX_VOLUME;
                  mixable = (if playing c > remaining then remaining else playing c);
                  c' = c\<lparr>samples := samples c + mixable, playing := playing c - mixable\<rparr>;
                  ev = Mix_Audio i index (samples c) mixable volume' #
                       (if playing c' = 0 \<and> looping c' = 0
                        then Mix_channel_done_playing cb i else [])
              in (case mix_playing cb heap len i (index + mixable) volume' c' of
                    Inl e \<Rightarrow> Inl e
                  | Inr (index', vol', c'', evs) \<Rightarrow> Inr (index', vol', c'', ev @ evs))))
      else Inr (index, vol, c, []))"
  by pat_completeness auto
termination
  by (relation "measure (\<lambda>(cb, heap, len, i, index, vol, c). nat (len - index))") auto

text \<open>
  The second loop, \<^verbatim>\<open>while (looping && index < len)\<close>. Its local \<^verbatim>\<open>int alen\<close> is the
  chunk length read as a signed number. When that is negative, \<^verbatim>\<open>remaining\<close> is negative
  too and is handed to \<^verbatim>\<open>SDL_MixAudio\<close> as a length. With a chunk of length zero and a
  negative loop counter neither the index nor the counter moves: the loop cannot exit.
  The new \<^verbatim>\<open>playing\<close> is \<^verbatim>\<open>chunk->alen - remaining\<close>, computed in \<^verbatim>\<open>uint32_t\<close>.
\<close>

function mix_looping ::
  "(nat \<Rightarrow> Mix_Chunk option) \<Rightarrow> int \<Rightarrow> int \<Rightarrow> int \<Rightarrow> int \<Rightarrow> Mix_Channel \<Rightarrow>
     fault + int \<times> Mix_Channel \<times> event list" where
  "mix_looping heap len i index vol c =
     (if looping c \<noteq> 0 \<and> index < len then
        (case chunk_of heap c of
           None \<Rightarrow> Inl Bad_Chunk
         | Some ck \<Rightarrow>
             if sint (alen32 ck) < 0 then Inl Buffer_Overrun
             else if sint (alen32 ck) = 0 \<and> looping c < 0 then Inl No_Exit
             else
               (let remaining = (if len - index > sint (alen32 ck) then sint (alen32 ck)
                                 else len - index);
                    c' = c\<lparr>looping := (if looping c > 0 then looping c - 1 else looping c),
                           samples := abuf ck + remaining,
                           playing := sint (alen32 ck - word_of_int remaining)\<rparr>
                in (case mix_looping heap len i (index + remaining) vol c' of
                      Inl e \<Rightarrow> Inl e
                    | Inr (index', c'', evs) \<Rightarrow>
                        Inr (index', c'', Mix_Audio i index (abuf ck) remaining vol # evs))))
      else Inr (index, c, []))"
  by pat_completeness auto
termination
  by (relation "measure (\<lambda>(heap, len, i, index, vol, c).
        (case chunk_of heap c of
           None \<Rightarrow> 0
         | Some ck \<Rightarrow> if sint (alen32 ck) = 0 then nat (looping c) else nat (len - index)))")
     (auto simp: chunk_of_def split: option.splits)

text \<open>The block \<^verbatim>\<open>if (mix_channel[i].playing > 0) { ... }\<close>.\<close>

definition mix_samples ::
  "bool \<Rightarrow> (nat \<Rightarrow> Mix_Chunk option) \<Rightarrow> int \<Rightarrow> int \<Rightarrow> Mix_Channel \<Rightarrow>
     fault + Mix_Channel \<times> event list" where
  "mix_samples cb heap len i c =
     (if playing c > 0 then
        (case mix_playing cb heap len i 0 SDL_MIX_MAXVOLUME c of
           Inl e \<Rightarrow> Inl e
         | Inr (index, vol, c1, ev1) \<Rightarrow>
             (case mix_looping heap len i index vol c1 of
                Inl e \<Rightarrow> Inl e
              | Inr (index', c2, ev2) \<Rightarrow>
                  if playing c2 = 0 \<and> looping c2 \<noteq> 0 then
                    (case chunk_of heap c2 of
                       None \<Rightarrow> Inl Bad_Chunk
                     | Some ck \<Rightarrow>
                         Inr (c2\<lparr>looping := (if looping c2 > 0 then looping c2 - 1
                                              else looping c2),
                                 samples := abuf ck,
                                 playing := sint (alen32 ck)\<rparr>, ev1 @ ev2))
                  else Inr (c2, ev1 @ ev2)))
      else Inr (c, []))"

text \<open>The body of the channel loop of \<^verbatim>\<open>mix_channels\<close> for channel \<open>i\<close>.\<close>

definition mix_one ::
  "bool \<Rightarrow> (nat \<Rightarrow> Mix_Chunk option) \<Rightarrow> 32 word \<Rightarrow> int \<Rightarrow> int \<Rightarrow> Mix_Channel \<Rightarrow>
     fault + Mix_Channel \<times> event list" where
  "mix_one cb heap sdl_ticks len i c =
     (if paused c = 0 then
        (case expire_fade cb sdl_ticks i c of
           Inl e \<Rightarrow> Inl e
         | Inr (c1, ev1) \<Rightarrow>
             (case mix_samples cb heap len i c1 of
                Inl e \<Rightarrow> Inl e
              | Inr (c2, ev2) \<Rightarrow> Inr (c2, ev1 @ ev2)))
      else Inr (c, []))"

definition mix_channel_i :: "32 word \<Rightarrow> int \<Rightarrow> int \<Rightarrow> mixer \<Rightarrow> fault + mixer" where
  "mix_channel_i sdl_ticks len i s =
     update_channel i (mix_one (channel_done_callback s) (chunks s) sdl_ticks len i) s"

definition mix_channels :: "32 word \<Rightarrow> int \<Rightarrow> mixer \<Rightarrow> fault + mixer" where
  "mix_channels sdl_ticks len s =
     for_channels (mix_channel_i sdl_ticks len) 0 (num_channels s) s"

text \<open>A run of mixing callbacks, each with the tick it reads and the length of its buffer.\<close>

fun mix_many :: "(32 word \<times> int) list \<Rightarrow> mixer \<Rightarrow> fault + mixer" where
  "mix_many [] s = Inr s"
| "mix_many ((sdl_ticks, len) # rest) s =
     (case mix_channels sdl_ticks len s of
        Inl e \<Rightarrow> Inl e
      | Inr s' \<Rightarrow> mix_many rest s')"

subsection \<open>Expiration, callback registration, reserved channels, groups\<close>

text \<open>
  \<^verbatim>\<open>Mix_ExpireChannel\<close>. The broadcast form calls itself once per channel, and each call
  reads the tick counter: \<open>now i\<close> is the tick read by the call for channel \<open>i\<close>.
\<close>

definition Mix_ExpireChannel_one :: "32 word \<Rightarrow> int \<Rightarrow> int \<Rightarrow> mixer \<Rightarrow> fault + int \<times> mixer" where
  "Mix_ExpireChannel_one sdl_ticks which ticks s =
     (if which < num_channels s then
        (case update_channel which
                (\<lambda>c. Inr (c\<lparr>expire := (if ticks > 0 then sdl_ticks + word_of_int ticks else 0)\<rparr>,
                          [])) s of
           Inl e \<Rightarrow> Inl e
         | Inr s' \<Rightarrow> Inr (1, s'))
      else Inr (0, s))"

function Mix_ExpireChannel_all ::
  "(int \<Rightarrow> 32 word) \<Rightarrow> int \<Rightarrow> int \<Rightarrow> int \<Rightarrow> int \<Rightarrow> mixer \<Rightarrow> fault + int \<times> mixer" where
  "Mix_ExpireChannel_all now ticks i hi status s =
     (if i < hi then
        (case Mix_ExpireChannel_one (now i) i ticks s of
           Inl e \<Rightarrow> Inl e
         | Inr (r, s') \<Rightarrow> Mix_ExpireChannel_all now ticks (i + 1) hi (status + r) s')
      else Inr (status, s))"
  by pat_completeness auto
termination
  by (relation "measure (\<lambda>(now, ticks, i, hi, st, s). nat (hi - i))") auto

definition Mix_ExpireChannel ::
  "(int \<Rightarrow> 32 word) \<Rightarrow> int \<Rightarrow> int \<Rightarrow> mixer \<Rightarrow> fault + int \<times> mixer" where
  "Mix_ExpireChannel now which ticks s =
     (if which = -1 then Mix_ExpireChannel_all now ticks 0 (num_channels s) 0 s
      else Mix_ExpireChannel_one (now which) which ticks s)"

text \<open>\<^verbatim>\<open>Mix_ChannelFinished\<close>: \<open>cb\<close> tells whether the new callback is non-null.\<close>

definition Mix_ChannelFinished :: "bool \<Rightarrow> mixer \<Rightarrow> mixer" where
  "Mix_ChannelFinished cb s = s\<lparr>channel_done_callback := cb\<rparr>"

definition Mix_ReserveChannels :: "int \<Rightarrow> mixer \<Rightarrow> int \<times> mixer" where
  "Mix_ReserveChannels num s =
     (let n = (if num > num_channels s then num_channels s else num)
      in (n, s\<lparr>reserved_channels := n\<rparr>))"

text \<open>\<^verbatim>\<open>Mix_GroupChannels\<close>, \<^verbatim>\<open>for ( ; from <= to; ++from) status += Mix_GroupChannel(from, tag)\<close>.\<close>

function Mix_GroupChannels :: "int \<Rightarrow> int \<Rightarrow> int \<Rightarrow> int \<Rightarrow> mixer \<Rightarrow> fault + int \<times> mixer" where
  "Mix_GroupChannels from to t status s =
     (if from \<le> to then
        (case Mix_GroupChannel from t s of
           Inl e \<Rightarrow> Inl e
         | Inr (r, s') \<Rightarrow> Mix_GroupChannels (from + 1) to t (status + r) s')
      else Inr (status, s))"
  by pat_completeness auto
termination
  by (relation "measure (\<lambda>(from, to, t, st, s). nat (to + 1 - from))") auto

subsection \<open>Starting a fade\<close>

text \<open>
  Modelled from the spec: no function of \<^verbatim>\<open>mixer.c\<close> starts a fade; the file only reads
  and clears the fade fields of a channel. The spec's operation
  \<open>fade(channel|-1, direction{in,out}, target_volume, duration_ms)\<close> ``records fade
  direction, total duration, start tick, the pre-fade volume (for restoration), and the
  fade target''. A fade-out is the spec's ramp ``toward zero'' from the volume the
  channel has, which is the \<open>V\<close> of its fade-out formula; a fade-in ramps toward the
  target.
\<close>

definition fade_channel ::
  "32 word \<Rightarrow> Mix_Fading \<Rightarrow> int \<Rightarrow> int \<Rightarrow> Mix_Channel \<Rightarrow> Mix_Channel" where
  "fade_channel sdl_ticks direction target_volume duration_ms c =
     c\<lparr>fading := direction,
       fade_length := word_of_int duration_ms,
       ticks_fade := sdl_ticks,
       fade_volume_reset := volume c,
       fade_volume := (if direction = MIX_FADING_OUT then volume c else target_volume)\<rparr>"

definition fade ::
  "32 word \<Rightarrow> int \<Rightarrow> Mix_Fading \<Rightarrow> int \<Rightarrow> int \<Rightarrow> mixer \<Rightarrow> fault + mixer" where
  "fade sdl_ticks which direction target_volume duration_ms s =
     (if which = -1 then
        for_channels
          (\<lambda>i. update_channel i
                  (\<lambda>c. Inr (fade_channel sdl_ticks direction target_volume duration_ms c, [])))
          0 (num_channels s) s
      else
        update_channel which
          (\<lambda>c. Inr (fade_channel sdl_ticks direction target_volume duration_ms c, [])) s)"

subsection \<open>Composite runs\<close>

text \<open>\<^verbatim>\<open>Mix_Pause\<close> at tick \<open>t0\<close> followed by \<^verbatim>\<open>Mix_Resume\<close> at tick \<open>t1\<close>.\<close>

definition pause_then_resume :: "32 word \<Rightarrow> 32 word \<Rightarrow> int \<Rightarrow> mixer \<Rightarrow> fault + mixer" where
  "pause_then_resume t0 t1 which s =
     (case Mix_Pause t0 which s of Inl e \<Rightarrow> Inl e | Inr s1 \<Rightarrow> Mix_Resume t1 which s1)"

text \<open>A run of resizes, each with the memory its \<^verbatim>\<open>realloc\<close> returns.\<close>

fun allocate_many :: "((nat \<Rightarrow> Mix_Channel) \<times> int) list \<Rightarrow> mixer \<Rightarrow> fault + mixer" where
  "allocate_many [] s = Inr s"
| "allocate_many ((junk, n) # rest) s =
     (case Mix_AllocateChannels junk n s of
        Inl e \<Rightarrow> Inl e
      | Inr (r, s') \<Rightarrow> allocate_many rest s')"

subsection \<open>Well-formed states\<close>

text \<open>The array is allocated and \<^verbatim>\<open>num_channels\<close> is its size.\<close>

definition bank_ok :: "mixer \<Rightarrow> bool" where
  "bank_ok s =
     (case mix_channel s of None \<Rightarrow> False | Some chs \<Rightarrow> num_channels s = int (length chs))"

definition the_channels :: "mixer \<Rightarrow> Mix_Channel list" where
  "the_channels s = (case mix_channel s of None \<Rightarrow> [] | Some chs \<Rightarrow> chs)"

text \<open>Two states that differ at most in the channel array and the trace.\<close>

definition same_env :: "mixer \<Rightarrow> mixer \<Rightarrow> bool" where
  "same_env s s' \<longleftrightarrow>
     num_channels s' = num_channels s \<and> reserved_channels s' = reserved_channels s \<and>
     channel_done_callback s' = channel_done_callback s \<and> mixer_format s' = mixer_format s \<and>
     mixer_channels s' = mixer_channels s \<and> chunks s' = chunks s"

text \<open>The defaults that \<^verbatim>\<open>Mix_AllocateChannels\<close> gives a new channel.\<close>

definition is_default :: "Mix_Channel \<Rightarrow> bool" where
  "is_default c \<longleftrightarrow>
     chunk c = None \<and> playing c = 0 \<and> looping c = 0 \<and> volume c = SDL_MIX_MAXVOLUME \<and>
     fade_volume c = SDL_MIX_MAXVOLUME \<and> fade_volume_reset c = SDL_MIX_MAXVOLUME \<and>
     fading c = MIX_NO_FADING \<and> tag c = -1 \<and> expire c = 0 \<and> effects c = [] \<and> paused c = 0"

text \<open>
  A channel that the mixing callback can process without a fault: a channel with bytes
  left to play points to a chunk of the store whose length is positive (the spec's
  invariant that playing implies a chunk) and is a positive \<^verbatim>\<open>int\<close> too, that is, below
  \<open>2 ^ 31\<close>; and a fade has a nonzero length.
\<close>

definition chan_ok :: "(nat \<Rightarrow> Mix_Chunk option) \<Rightarrow> Mix_Channel \<Rightarrow> bool" where
  "chan_ok heap c \<longleftrightarrow>
     (0 < playing c \<longrightarrow>
        (case chunk_of heap c of None \<Rightarrow> False | Some ck \<Rightarrow> 0 < alen ck \<and> alen ck < 2 ^ 31)) \<and>
     (fading c \<noteq> MIX_NO_FADING \<longrightarrow> fade_length c \<noteq> 0)"

definition bank_wf :: "mixer \<Rightarrow> bool" where
  "bank_wf s \<longleftrightarrow> bank_ok s \<and> list_all (chan_ok (chunks s)) (the_channels s)"

text \<open>Unpaused, not fading, no deadline: the callback goes straight to the samples.\<close>

definition quiet :: "Mix_Channel \<Rightarrow> bool" where
  "quiet c \<longleftrightarrow> paused c = 0 \<and> fading c = MIX_NO_FADING \<and> expire c = 0"

text \<open>The fields of a channel that the two mixing loops never write.\<close>

definition other_fields :: "Mix_Channel \<Rightarrow> Mix_Channel" where
  "other_fields c = c\<lparr>looping := 0, samples := 0, playing := 0\<rparr>"

definition chunk_len :: "mixer \<Rightarrow> nat \<Rightarrow> nat option" where
  "chunk_len s p = map_option alen (chunks s p)"

subsection \<open>The states of an open mixer\<close>

text \<open>Every chunk length of the store fits the \<^verbatim>\<open>uint32_t\<close> that holds it.\<close>

definition store_ok :: "(nat \<Rightarrow> Mix_Chunk option) \<Rightarrow> bool" where
  "store_ok heap \<longleftrightarrow> (\<forall>p ck. heap p = Some ck \<longrightarrow> alen ck < 2 ^ 32)"

text \<open>
  What the functions of the file establish and keep in a channel: no fade is in progress
  (no function of the file starts one), a channel with no bytes left has no repeats left,
  and a channel with bytes left plays a chunk of the store whose length is positive,
  below \<open>2 ^ 31\<close> and a whole number of frames.
\<close>

definition chan_inv :: "nat \<Rightarrow> (nat \<Rightarrow> Mix_Chunk option) \<Rightarrow> Mix_Channel \<Rightarrow> bool" where
  "chan_inv fw heap c \<longleftrightarrow>
     fading c = MIX_NO_FADING \<and> (playing c = 0 \<longrightarrow> looping c = 0) \<and>
     (0 < playing c \<longrightarrow>
        (case chunk_of heap c of
           None \<Rightarrow> False
         | Some ck \<Rightarrow> 0 < alen ck \<and> alen ck < 2 ^ 31 \<and> alen ck mod fw = 0))"

definition bank_inv :: "mixer \<Rightarrow> bool" where
  "bank_inv s \<longleftrightarrow>
     bank_ok s \<and> list_all (chan_inv (frame_width s) (chunks s)) (the_channels s)"

text \<open>
  The state that a successful \<^verbatim>\<open>Mix_OpenAudio\<close> leaves: the array is allocated and every
  channel holds the defaults.
\<close>

definition opened :: "mixer \<Rightarrow> bool" where
  "opened s \<longleftrightarrow> bank_ok s \<and> list_all is_default (the_channels s) \<and> store_ok (chunks s)"

text \<open>
  The states of an open mixer: from the state after \<^verbatim>\<open>Mix_OpenAudio\<close>, any function of
  the file that writes the channel bank, the chunk store or the registered callback may
  run and return, and the audio device may call the mixing callback. A loader
  (\<^verbatim>\<open>Mix_LoadWAV_RW\<close>, \<^verbatim>\<open>Mix_QuickLoad_WAV\<close>) puts a new chunk at an unused address.
\<close>

inductive reachable :: "mixer \<Rightarrow> bool" where
  r_open: "opened s \<Longrightarrow> reachable s"
| r_load: "reachable s \<Longrightarrow> chunks s p = None \<Longrightarrow> alen ck < 2 ^ 32 \<Longrightarrow>
           reachable (s\<lparr>chunks := (chunks s)(p \<mapsto> ck)\<rparr>)"
| r_free: "reachable s \<Longrightarrow> Mix_FreeChunk chunkp s = Inr s' \<Longrightarrow> reachable s'"
| r_allocate: "reachable s \<Longrightarrow> Mix_AllocateChannels junk n s = Inr (r, s') \<Longrightarrow> reachable s'"
| r_play: "reachable s \<Longrightarrow> Mix_PlayChannelTimed sdl_ticks which chunkp loops ticks s = Inr (r, s') \<Longrightarrow>
           reachable s'"
| r_expire: "reachable s \<Longrightarrow> Mix_ExpireChannel now which ticks s = Inr (r, s') \<Longrightarrow> reachable s'"
| r_volume: "reachable s \<Longrightarrow> Mix_Volume which v s = Inr (r, s') \<Longrightarrow> reachable s'"
| r_halt: "reachable s \<Longrightarrow> Mix_HaltChannel which s = Inr s' \<Longrightarrow> reachable s'"
| r_pause: "reachable s \<Longrightarrow> Mix_Pause sdl_ticks which s = Inr s' \<Longrightarrow> reachable s'"
| r_resume: "reachable s \<Longrightarrow> Mix_Resume sdl_ticks which s = Inr s' \<Longrightarrow> reachable s'"
| r_group: "reachable s \<Longrightarrow> Mix_GroupChannels from to t 0 s = Inr (r, s') \<Longrightarrow> reachable s'"
| r_group1: "reachable s \<Longrightarrow> Mix_GroupChannel which t s = Inr (r, s') \<Longrightarrow> reachable s'"
| r_reserve: "reachable s \<Longrightarrow> reachable (snd (Mix_ReserveChannels num s))"
| r_finished: "reachable s \<Longrightarrow> reachable (Mix_ChannelFinished cb s)"
| r_mix: "reachable s \<Longrightarrow> mix_channels sdl_ticks len s = Inr s' \<Longrightarrow> reachable s'"

text \<open>The invariant that the states of an open mixer satisfy.\<close>

definition open_inv :: "mixer \<Rightarrow> bool" where
  "open_inv s \<longleftrightarrow> bank_inv s \<and> store_ok (chunks s)"

subsection \<open>Reading the trace\<close>

text \<open>The bytes handed to \<^verbatim>\<open>SDL_MixAudio\<close> for channel \<open>w\<close>.\<close>

fun event_bytes :: "int \<Rightarrow> event \<Rightarrow> int" where
  "event_bytes w (Mix_Audio ch index src n vol) = (if ch = w then n else 0)"
| "event_bytes w (Channel_Done ch) = 0"
| "event_bytes w (Free_Mem a) = 0"

definition bytes_mixed :: "int \<Rightarrow> event list \<Rightarrow> int" where
  "bytes_mixed w tr = sum_list (map (event_bytes w) tr)"

text \<open>The number of calls of the channel-finished callback for channel \<open>w\<close>.\<close>

definition done_count :: "int \<Rightarrow> event list \<Rightarrow> nat" where
  "done_count w tr = count_list tr (Channel_Done w)"

text \<open>The channel an event belongs to; every event of \<open>evs\<close> belongs to channel \<open>i\<close>.\<close>

fun event_channel :: "event \<Rightarrow> int option" where
  "event_channel (Mix_Audio ch index src n vol) = Some ch"
| "event_channel (Channel_Done ch) = Some ch"
| "event_channel (Free_Mem a) = None"

definition events_of :: "int \<Rightarrow> event list \<Rightarrow> bool" where
  "events_of i evs \<longleftrightarrow> list_all (\<lambda>e. event_channel e = Some i) evs"

subsection \<open>Example states\<close>

definition ex_channel :: Mix_Channel where
  "ex_channel =
     \<lparr>chunk = None, playing = 0, paused = 0, samples = 0, volume = 128, looping = 0,
      tag = -1, expire = 0, start_time = 0, fading = MIX_NO_FADING, fade_volume = 128,
      fade_volume_reset = 128, fade_length = 0, ticks_fade = 0, effects = []\<rparr>"

definition ex_chunk :: Mix_Chunk where
  "ex_chunk = \<lparr>allocated = 1, abuf = 1000, alen = 4, chunk_volume = 128\<rparr>"

text \<open>Two idle channels, signed 16-bit mono output (frame width 2), one chunk of 4 bytes.\<close>

definition ex_mixer :: mixer where
  "ex_mixer =
     \<lparr>mix_channel = Some [ex_channel, ex_channel], num_channels = 2,
      reserved_channels = 0, channel_done_callback = True, mixer_format = 0x8010,
      mixer_channels = 1, chunks = [1 \<mapsto> ex_chunk], trace = []\<rparr>"

text \<open>The same with a single channel \<open>c\<close>.\<close>

definition ex_mixer1 :: "Mix_Channel \<Rightarrow> mixer" where
  "ex_mixer1 c = ex_mixer\<lparr>mix_channel := Some [c], num_channels := 1\<rparr>"

text \<open>Both channels play the chunk, the second with three repeats left.\<close>

definition ex_two_playing :: mixer where
  "ex_two_playing =
     ex_mixer\<lparr>mix_channel := Some [ex_channel\<lparr>chunk := Some 1, playing := 4\<rparr>,
                                    ex_channel\<lparr>chunk := Some 1, playing := 2, looping := 3\<rparr>]\<rparr>"

text \<open>
  A channel that plays the chunk at volume 128 and has been fading out since tick 0, over
  10 ticks; the bank \<open>ex_mixer\<close> with this channel 0.
\<close>

definition ex_fading :: Mix_Channel where
  "ex_fading =
     ex_channel\<lparr>samples := 1000, playing := 4, chunk := Some 1, fading := MIX_FADING_OUT,
                  fade_length := 10\<rparr>"

definition ex_faded :: mixer where
  "ex_faded = ex_mixer\<lparr>mix_channel := Some [ex_fading, ex_channel]\<rparr>"

text \<open>The bank \<open>ex_mixer\<close> with a chunk of \<open>2 ^ 31\<close> bytes.\<close>

definition ex_huge :: mixer where
  "ex_huge = ex_mixer\<lparr>chunks := [1 \<mapsto> ex_chunk\<lparr>alen := 2147483648\<rparr>]\<rparr>"

text \<open>Channel 0 plays the chunk since tick 5 with the deadline 8.\<close>

definition ex_timed :: mixer where
  "ex_timed =
     ex_mixer\<lparr>mix_channel :=
                 Some [ex_channel\<lparr>samples := 1000, playing := 4, chunk := Some 1,
                                   start_time := 5, expire := 8\<rparr>, ex_channel]\<rparr>"

definition ex_playing :: Mix_Channel where
  "ex_playing = ex_channel\<lparr>chunk := Some 1, playing := 4\<rparr>"

section \<open>Basic facts\<close>

declare for_channels.simps [simp del]
declare Mix_Volume_all.simps [simp del]
declare Mix_Playing_all.simps [simp del]
declare truncate_alen.simps [simp del]
declare first_free.simps [simp del]
declare mix_playing.simps [simp del]
declare mix_looping.simps [simp del]
declare Mix_ExpireChannel_all.simps [simp del]
declare Mix_GroupChannels.simps [simp del]

lemma pred_mod:
  assumes "a mod fw \<noteq> (0::nat)"
  shows "(a - Suc 0) mod fw = a mod fw - Suc 0"
proof -
  from assms have a: "a \<noteq> 0" by (cases "a = 0") simp_all
  then obtain m where m: "a = Suc m" by (cases a) auto
  have "Suc m mod fw = (if Suc (m mod fw) = fw then 0 else Suc (m mod fw))"
    by (rule mod_Suc)
  with assms m have "a mod fw = Suc (m mod fw)" by (simp split: if_splits)
  with m show ?thesis by simp
qed

text \<open>The truncation loop rounds the length down to a whole number of frames.\<close>

lemma truncate_alen_eq: "truncate_alen fw a = (if fw = 0 then 0 else a - a mod fw)"
proof (induction fw a rule: truncate_alen.induct)
  case (1 fw a)
  show ?case
  proof (cases "a mod fw = 0")
    case True
    then show ?thesis by (subst truncate_alen.simps) auto
  next
    case False
    have le: "a mod fw \<le> a" by simp
    have "truncate_alen fw a = truncate_alen fw (a - 1)"
      using False by (subst truncate_alen.simps) simp
    also have "\<dots> = (if fw = 0 then 0 else (a - 1) - (a - 1) mod fw)"
      using 1 False by simp
    also have "\<dots> = (if fw = 0 then 0 else a - a mod fw)"
      using False le by (simp add: pred_mod)
    finally show ?thesis .
  qed
qed

lemma truncate_zero_iff: "fw \<noteq> 0 \<Longrightarrow> truncate_alen fw a = 0 \<longleftrightarrow> a < fw"
proof -
  assume fw: "fw \<noteq> 0"
  have "a - a mod fw = fw * (a div fw)"
    by (simp add: minus_mod_eq_mult_div)
  then show ?thesis using fw by (simp add: truncate_alen_eq div_eq_0_iff)
qed

text \<open>The chunk length read as an \<^verbatim>\<open>int\<close>: itself below \<open>2 ^ 31\<close>, negative from there on.\<close>

lemma sint_small:
  fixes x :: "32 word"
  assumes "uint x < 2 ^ 31"
  shows "sint x = uint x"
proof -
  have "- (2 ^ 31) \<le> (0 :: int)" by simp
  also have "0 \<le> uint x" by simp
  finally have "- (2 ^ 31) \<le> uint x" .
  with assms show ?thesis by (simp add: sint_uint signed_take_bit_int_eq_self)
qed

lemma uint_of_nat_small:
  assumes "a < 2 ^ 32"
  shows "uint (word_of_nat a :: 32 word) = int a"
proof -
  have "uint (word_of_nat a :: 32 word) = int (a mod 2 ^ 32)"
    by (simp add: unsigned_of_nat take_bit_eq_mod)
  also have "\<dots> = int a" using assms by simp
  finally show ?thesis .
qed

lemma sint_of_nat_small:
  assumes "a < 2 ^ 31"
  shows "sint (word_of_nat a :: 32 word) = int a"
proof -
  have "a < 2 ^ 32" using assms by simp
  then have u: "uint (word_of_nat a :: 32 word) = int a" by (rule uint_of_nat_small)
  with assms have "uint (word_of_nat a :: 32 word) < 2 ^ 31" by simp
  then show ?thesis using u by (simp add: sint_small)
qed

lemma sint_of_nat_big:
  assumes "2 ^ 31 \<le> a" and "a < 2 ^ 32"
  shows "sint (word_of_nat a :: 32 word) = int a - 2 ^ 32"
proof -
  have u: "uint (word_of_nat a :: 32 word) = int a" using assms(2) by (rule uint_of_nat_small)
  have "sint (word_of_nat a :: 32 word) = signed_take_bit 31 (int a)"
    using u by (simp add: sint_uint)
  also have "\<dots> = (int a + 2 ^ 31) mod 2 ^ 32 - 2 ^ 31"
    by (simp add: signed_take_bit_eq_take_bit_shift take_bit_eq_mod)
  also have "(int a + 2 ^ 31) mod 2 ^ 32 = (int a + 2 ^ 31 - 2 ^ 32) mod 2 ^ 32"
    by (simp only: minus_mod_self2)
  also have "\<dots> = int a + 2 ^ 31 - 2 ^ 32"
    using assms by (intro mod_pos_pos_trivial) simp_all
  finally show ?thesis by simp
qed

lemma sint_sub_small:
  assumes "a < 2 ^ 31" and "0 \<le> r" and "r \<le> int a"
  shows "sint ((word_of_nat a :: 32 word) - word_of_int r) = int a - r"
proof -
  have "(word_of_nat a :: 32 word) - word_of_int r = word_of_nat (nat (int a - r))"
  proof -
    have "(word_of_nat (nat (int a - r)) :: 32 word) = word_of_int (int (nat (int a - r)))"
      by (simp only: of_int_of_nat_eq)
    also have "\<dots> = word_of_int (int a - r)" using assms(3) by simp
    also have "\<dots> = word_of_int (int a) - word_of_int r" by simp
    also have "\<dots> = word_of_nat a - word_of_int r" by (simp only: of_int_of_nat_eq)
    finally show ?thesis by simp
  qed
  moreover have "nat (int a - r) < 2 ^ 31" using assms by simp
  then have "sint (word_of_nat (nat (int a - r)) :: 32 word) = int (nat (int a - r))"
    by (rule sint_of_nat_small)
  ultimately show ?thesis using assms(3) by simp
qed

lemma alen32_small: "alen ck < 2 ^ 31 \<Longrightarrow> sint (alen32 ck) = int (alen ck)"
  unfolding alen32_def by (rule sint_of_nat_small)

lemma alen32_sub:
  "alen ck < 2 ^ 31 \<Longrightarrow> 0 \<le> r \<Longrightarrow> r \<le> int (alen ck) \<Longrightarrow>
   sint (alen32 ck - word_of_int r) = int (alen ck) - r"
  unfolding alen32_def by (rule sint_sub_small)

lemma alen32_big:
  "2 ^ 31 \<le> alen ck \<Longrightarrow> alen ck < 2 ^ 32 \<Longrightarrow> sint (alen32 ck) = int (alen ck) - 2 ^ 32"
  unfolding alen32_def by (rule sint_of_nat_big)

lemma update_channel_ok:
  assumes "mix_channel s = Some chs" "0 \<le> i" "i < int (length chs)"
    and "f (chs ! nat i) = Inr (c, ev)"
  shows "update_channel i f s =
           Inr (s\<lparr>mix_channel := Some (chs[nat i := c]), trace := trace s @ ev\<rparr>)"
  using assms by (simp add: update_channel_def)

lemma channel_at_ok:
  assumes "mix_channel s = Some chs" "0 \<le> i" "i < int (length chs)"
  shows "channel_at s i = Inr (chs ! nat i)"
  using assms by (simp add: channel_at_def)

text \<open>
  A loop over the channels \<open>lo, \<dots>, hi - 1\<close> whose body rewrites channel \<open>k\<close> alone:
  when every step succeeds, the loop succeeds, channel \<open>k\<close> of the range holds the result
  \<open>g k\<close> of its step, the other channels are untouched and the calls \<open>e k\<close> are traced in
  ascending order of \<open>k\<close>.
\<close>

lemma same_env_refl: "same_env s s"
  by (simp add: same_env_def)

lemma same_env_update:
  "same_env s s' \<Longrightarrow> same_env s (s'\<lparr>mix_channel := m, trace := t\<rparr>)"
  by (simp add: same_env_def)

lemma for_channels_update:
  fixes lo hi :: nat
  assumes "mix_channel s = Some chs" and "hi \<le> length chs"
    and "\<And>k s'. same_env s s' \<Longrightarrow> lo \<le> k \<Longrightarrow> k < hi \<Longrightarrow>
            body (int k) s' = update_channel (int k) (f k) s'"
    and "\<And>k. lo \<le> k \<Longrightarrow> k < hi \<Longrightarrow> f k (chs ! k) = Inr (g k, e k)"
  shows "\<exists>chs'. for_channels body (int lo) (int hi) s =
             Inr (s\<lparr>mix_channel := Some chs', trace := trace s @ concat (map e [lo..<hi])\<rparr>) \<and>
           length chs' = length chs \<and>
           (\<forall>j<length chs. chs' ! j = (if lo \<le> j \<and> j < hi then g j else chs ! j))"
  using assms
proof (induction "hi - lo" arbitrary: lo s chs)
  case 0
  then have "for_channels body (int lo) (int hi) s = Inr s"
    by (subst for_channels.simps) simp
  moreover have "s\<lparr>mix_channel := Some chs, trace := trace s @ concat (map e [lo..<hi])\<rparr> = s"
    using 0 by simp
  ultimately show ?case using 0 by (intro exI [of _ chs]) auto
next
  case (Suc d)
  then have lt: "lo < hi" by simp
  let ?c = "g lo" and ?ev = "e lo"
  let ?chs1 = "chs[lo := ?c]"
  let ?s1 = "s\<lparr>mix_channel := Some ?chs1, trace := trace s @ ?ev\<rparr>"
  have b: "body (int lo) s = Inr ?s1"
    using Suc.prems(3) [of s lo] Suc.prems(1,2,4) lt
    by (simp add: same_env_refl update_channel_def)
  have env1: "same_env s ?s1" by (simp add: same_env_def)
  have step: "for_channels body (int lo) (int hi) s = for_channels body (int (Suc lo)) (int hi) ?s1"
    using lt b by (subst for_channels.simps) (simp add: add.commute)
  have "\<exists>chs'. for_channels body (int (Suc lo)) (int hi) ?s1 =
             Inr (?s1\<lparr>mix_channel := Some chs', trace := trace ?s1 @ concat (map e [Suc lo..<hi])\<rparr>) \<and>
           length chs' = length ?chs1 \<and>
           (\<forall>j<length ?chs1. chs' ! j = (if Suc lo \<le> j \<and> j < hi then g j else ?chs1 ! j))"
  proof (rule Suc.hyps(1))
    show "d = hi - Suc lo" using Suc.hyps(2) by simp
    show "mix_channel ?s1 = Some ?chs1" by simp
    show "hi \<le> length ?chs1" using Suc.prems(2) by simp
    show "body (int k) s' = update_channel (int k) (f k) s'"
      if "same_env ?s1 s'" "Suc lo \<le> k" "k < hi" for k s'
    proof -
      from that(1) have "same_env s s'" by (simp add: same_env_def)
      then show ?thesis using Suc.prems(3) [of s' k] that by simp
    qed
    show "f k (?chs1 ! k) = Inr (g k, e k)" if "Suc lo \<le> k" "k < hi" for k
      using Suc.prems(4) [of k] that by simp
  qed
  then obtain chs' where r: "for_channels body (int (Suc lo)) (int hi) ?s1 =
             Inr (?s1\<lparr>mix_channel := Some chs', trace := trace ?s1 @ concat (map e [Suc lo..<hi])\<rparr>)"
    and len: "length chs' = length ?chs1"
    and nth: "\<forall>j<length ?chs1. chs' ! j = (if Suc lo \<le> j \<and> j < hi then g j else ?chs1 ! j)"
    by blast
  have tr: "concat (map e [lo..<hi]) = e lo @ concat (map e [Suc lo..<hi])"
    using lt by (simp add: upt_conv_Cons)
  have "for_channels body (int lo) (int hi) s =
          Inr (s\<lparr>mix_channel := Some chs', trace := trace s @ concat (map e [lo..<hi])\<rparr>)"
    using step r tr by simp
  moreover have "length chs' = length chs" using len by simp
  moreover have "\<forall>j<length chs. chs' ! j = (if lo \<le> j \<and> j < hi then g j else chs ! j)"
  proof (intro allI impI)
    fix j assume j: "j < length chs"
    show "chs' ! j = (if lo \<le> j \<and> j < hi then g j else chs ! j)"
    proof (cases "j = lo")
      case True
      with nth j lt show ?thesis by simp
    next
      case False
      with nth j show ?thesis by auto
    qed
  qed
  ultimately show ?case by blast
qed

section \<open>Pause and resume\<close>

text \<open>
  Claim C4. On a channel \<open>w\<close> of the bank that is playing and has a nonzero expiration
  deadline, \<^verbatim>\<open>Mix_Pause\<close> at tick \<open>t0\<close> stamps the pause time, and \<^verbatim>\<open>Mix_Resume\<close> at tick
  \<open>t1\<close> clears the stamp and moves the deadline forward by \<open>t1 - t0\<close> (in 32-bit tick
  arithmetic), so a deadline of \<open>t0 + 500\<close> becomes \<open>t1 + 500\<close>. On a channel that is not
  playing (\<open>playing \<le> 0\<close>) both calls leave the whole state as it was.
\<close>

theorem pause_resume_deadline:
  assumes "mix_channel s = Some chs" and "num_channels s = int (length chs)"
    and "0 \<le> w" and "w < num_channels s" and "c = chs ! nat w"
  shows "(0 < playing c \<and> expire c \<noteq> 0 \<longrightarrow>
           Mix_Pause t0 w s =
             Inr (s\<lparr>mix_channel := Some (chs[nat w := c\<lparr>paused := sint t0\<rparr>])\<rparr>) \<and>
           pause_then_resume t0 t1 w s =
             Inr (s\<lparr>mix_channel :=
                      Some (chs[nat w := c\<lparr>expire := expire c + (t1 - t0), paused := 0\<rparr>])\<rparr>) \<and>
           (expire c = t0 + 500 \<longrightarrow> expire c + (t1 - t0) = t1 + 500)) \<and>
         (playing c \<le> 0 \<longrightarrow> Mix_Pause t0 w s = Inr s \<and> Mix_Resume t1 w s = Inr s)"
  using assms
  by (auto simp: pause_then_resume_def Mix_Pause_def Mix_Resume_def Mix_Pause_one_def
      Mix_Resume_one_def update_channel_def pause_channel_def resume_channel_def Let_def
      word_greater_zero_iff)

theorem pause_resume_deadline_witness:
  "Mix_Pause 1000 0 (ex_mixer1 (ex_channel\<lparr>playing := 4, expire := 1500\<rparr>)) =
     Inr (ex_mixer1 (ex_channel\<lparr>playing := 4, expire := 1500, paused := 1000\<rparr>)) \<and>
   pause_then_resume 1000 1300 0 (ex_mixer1 (ex_channel\<lparr>playing := 4, expire := 1500\<rparr>)) =
     Inr (ex_mixer1 (ex_channel\<lparr>playing := 4, expire := 1800, paused := 0\<rparr>)) \<and>
   Mix_Pause 1000 0 (ex_mixer1 ex_channel) = Inr (ex_mixer1 ex_channel) \<and>
   Mix_Resume 1300 0 (ex_mixer1 ex_channel) = Inr (ex_mixer1 ex_channel)"
proof -
  let ?c = "ex_channel\<lparr>playing := 4, expire := 1500\<rparr>"
  have a: "(0 < playing ?c \<and> expire ?c \<noteq> 0 \<longrightarrow>
           Mix_Pause 1000 0 (ex_mixer1 ?c) =
             Inr ((ex_mixer1 ?c)\<lparr>mix_channel := Some ([?c][nat 0 := ?c\<lparr>paused := sint (1000 :: 32 word)\<rparr>])\<rparr>) \<and>
           pause_then_resume 1000 1300 0 (ex_mixer1 ?c) =
             Inr ((ex_mixer1 ?c)\<lparr>mix_channel :=
                      Some ([?c][nat 0 := ?c\<lparr>expire := expire ?c + (1300 - 1000), paused := 0\<rparr>])\<rparr>) \<and>
           (expire ?c = 1000 + 500 \<longrightarrow> expire ?c + (1300 - 1000) = 1300 + 500)) \<and>
         (playing ?c \<le> 0 \<longrightarrow> Mix_Pause 1000 0 (ex_mixer1 ?c) = Inr (ex_mixer1 ?c) \<and>
            Mix_Resume 1300 0 (ex_mixer1 ?c) = Inr (ex_mixer1 ?c))"
    by (rule pause_resume_deadline) (simp_all add: ex_mixer1_def ex_mixer_def)
  have b: "(0 < playing ex_channel \<and> expire ex_channel \<noteq> 0 \<longrightarrow>
           Mix_Pause 1000 0 (ex_mixer1 ex_channel) =
             Inr ((ex_mixer1 ex_channel)\<lparr>mix_channel :=
                    Some ([ex_channel][nat 0 := ex_channel\<lparr>paused := sint (1000 :: 32 word)\<rparr>])\<rparr>) \<and>
           pause_then_resume 1000 1300 0 (ex_mixer1 ex_channel) =
             Inr ((ex_mixer1 ex_channel)\<lparr>mix_channel :=
                      Some ([ex_channel][nat 0 :=
                         ex_channel\<lparr>expire := expire ex_channel + (1300 - 1000), paused := 0\<rparr>])\<rparr>) \<and>
           (expire ex_channel = 1000 + 500 \<longrightarrow> expire ex_channel + (1300 - 1000) = 1300 + 500)) \<and>
         (playing ex_channel \<le> 0 \<longrightarrow>
            Mix_Pause 1000 0 (ex_mixer1 ex_channel) = Inr (ex_mixer1 ex_channel) \<and>
            Mix_Resume 1300 0 (ex_mixer1 ex_channel) = Inr (ex_mixer1 ex_channel))"
    by (rule pause_resume_deadline) (simp_all add: ex_mixer1_def ex_mixer_def)
  have "0 < playing ?c \<and> expire ?c \<noteq> 0" "playing ex_channel \<le> 0"
    by (simp_all add: ex_channel_def)
  with a b show ?thesis
    by (simp add: ex_mixer1_def ex_mixer_def ex_channel_def)
qed

section \<open>Rejected chunks\<close>

text \<open>
  Claim C9, as stated, fails: a chunk shorter than one frame is truncated in place, so the
  failed call changes the chunk's length. Here a chunk of 1 byte is offered to a mixer
  whose frame is 2 bytes wide; the call returns -1 and the chunk's length is 0 afterwards.
\<close>

theorem play_mutates_length:
  "(case Mix_PlayChannelTimed 0 0 (Some 1) 0 0
           (ex_mixer\<lparr>chunks := [1 \<mapsto> ex_chunk\<lparr>alen := 1\<rparr>]\<rparr>) of
      Inl e \<Rightarrow> False
    | Inr (r, s') \<Rightarrow> r = -1 \<and> chunk_len s' 1 = Some 0) \<and>
   chunk_len (ex_mixer\<lparr>chunks := [1 \<mapsto> ex_chunk\<lparr>alen := 1\<rparr>]\<rparr>) 1 = Some 1"
  by (simp add: Mix_PlayChannelTimed_def checkchunkintegral_def truncate_alen_eq frame_width_def
        ex_mixer_def ex_chunk_def chunk_len_def)

text \<open>
  Claim C9, amended. \<^verbatim>\<open>Mix_PlayChannelTimed\<close> with a null chunk returns -1 and leaves the
  whole state as it was. With a chunk whose frame-truncated length is zero it returns -1
  as well, whatever the channel argument, loop count and tick limit; the channel bank,
  the trace and every other chunk are unchanged, and of the chunk's own fields only the
  length changes: it is the truncated length, zero.
\<close>

theorem play_rejects:
  "Mix_PlayChannelTimed sdl_ticks which None loops ticks s = Inr (-1, s) \<and>
   (chunks s p = Some ck \<and> frame_width s \<noteq> 0 \<and>
    truncate_alen (frame_width s) (alen ck) = 0 \<longrightarrow>
      Mix_PlayChannelTimed sdl_ticks which (Some p) loops ticks s =
        Inr (-1, s\<lparr>chunks := (chunks s)(p \<mapsto> ck\<lparr>alen := 0\<rparr>)\<rparr>))"
  by (auto simp: Mix_PlayChannelTimed_def checkchunkintegral_def Let_def)

theorem play_rejects_witness:
  "Mix_PlayChannelTimed 0 0 (Some 1) 0 0 (ex_mixer\<lparr>chunks := [1 \<mapsto> ex_chunk\<lparr>alen := 1\<rparr>]\<rparr>) =
     Inr (-1, ex_mixer\<lparr>chunks := [1 \<mapsto> ex_chunk\<lparr>alen := 0\<rparr>]\<rparr>)"
proof -
  let ?s = "ex_mixer\<lparr>chunks := [1 \<mapsto> ex_chunk\<lparr>alen := 1\<rparr>]\<rparr>"
  have h: "chunks ?s 1 = Some (ex_chunk\<lparr>alen := 1\<rparr>) \<and> frame_width ?s \<noteq> 0 \<and>
           truncate_alen (frame_width ?s) (alen (ex_chunk\<lparr>alen := 1\<rparr>)) = 0"
    by (simp add: frame_width_def ex_mixer_def truncate_alen_eq)
  from play_rejects [of 0 0 0 0 ?s 1 "ex_chunk\<lparr>alen := 1\<rparr>"] h
  have "Mix_PlayChannelTimed 0 0 (Some 1) 0 0 ?s =
          Inr (-1, ?s\<lparr>chunks := (chunks ?s)(1 \<mapsto> ex_chunk\<lparr>alen := 1, alen := 0\<rparr>)\<rparr>)"
    by blast
  then show ?thesis by (simp add: ex_mixer_def)
qed

section \<open>Channel arguments out of range\<close>

text \<open>
  Claim C10 fails on the code. \<^verbatim>\<open>Mix_GroupChannel\<close> lets \<open>which = num_channels\<close> through
  its range check and writes one element past the array; \<^verbatim>\<open>Mix_Volume\<close>,
  \<^verbatim>\<open>Mix_HaltChannel\<close> and \<^verbatim>\<open>Mix_Playing\<close> test only \<open>which < num_channels\<close>, so a
  negative argument other than -1 indexes the array below its start. On the bank of two
  channels:
\<close>

theorem channel_argument_out_of_bounds:
  "Mix_GroupChannel 2 7 ex_mixer = Inl (Out_Of_Bounds 2) \<and>
   Mix_Volume (-2) 5 ex_mixer = Inl (Out_Of_Bounds (-2)) \<and>
   Mix_HaltChannel (-2) ex_mixer = Inl (Out_Of_Bounds (-2)) \<and>
   Mix_Playing (-2) ex_mixer = Inl (Out_Of_Bounds (-2))"
  by (simp add: Mix_GroupChannel_def Mix_Volume_def Mix_Volume_one_def Mix_HaltChannel_def
      Mix_HaltChannel_one_def Mix_Playing_def update_channel_def channel_at_def ex_mixer_def)

section \<open>Destroying a chunk\<close>

lemma concat_map_Nil: "concat (map (\<lambda>k. []) xs) = []"
  by (induction xs) simp_all

lemma free_stop_channels_ok:
  assumes "mix_channel s = Some chs" and "num_channels s = int (length chs)"
  shows "free_stop_channels p s = Inr (s\<lparr>mix_channel := Some (map (stop_if_chunk p) chs)\<rparr>)"
proof -
  have "\<exists>chs'. for_channels (\<lambda>i. update_channel i (\<lambda>c. Inr (stop_if_chunk p c, []))) (int 0)
                  (int (length chs)) s =
             Inr (s\<lparr>mix_channel := Some chs',
                    trace := trace s @ concat (map (\<lambda>k. []) [0..<length chs])\<rparr>) \<and>
           length chs' = length chs \<and>
           (\<forall>j<length chs. chs' ! j =
              (if 0 \<le> j \<and> j < length chs then stop_if_chunk p (chs ! j) else chs ! j))"
    by (rule for_channels_update [where f = "\<lambda>k c. Inr (stop_if_chunk p c, [])"])
       (use assms in simp_all)
  then obtain chs' where r: "for_channels (\<lambda>i. update_channel i (\<lambda>c. Inr (stop_if_chunk p c, []))) 0
                  (int (length chs)) s = Inr (s\<lparr>mix_channel := Some chs'\<rparr>)"
    and len: "length chs' = length chs"
    and nth: "\<forall>j<length chs. chs' ! j = stop_if_chunk p (chs ! j)"
    by (auto simp: concat_map_Nil)
  have "chs' = map (stop_if_chunk p) chs"
    using len nth by (intro nth_equalityI) simp_all
  with r assms show ?thesis by (simp add: free_stop_channels_def)
qed

text \<open>
  Claim C7. For every chunk in the store and every state whose channel array is null or
  well formed, \<^verbatim>\<open>Mix_FreeChunk\<close> first runs the loop that sets \<open>playing = 0\<close> and
  \<open>looping = 0\<close> on every channel whose chunk pointer is this chunk (the other channels,
  the store and the trace are untouched in the state \<open>s1\<close> it leaves), and only then, from
  \<open>s1\<close>, releases: the sample buffer is freed exactly when the allocated flag is set, and
  the chunk leaves the store.
\<close>

theorem free_chunk_stops_then_releases:
  assumes "mix_channel s = None \<or> bank_ok s" and "chunks s p = Some ck"
  shows "\<exists>s1. free_stop_channels p s = Inr s1 \<and>
           s1 = s\<lparr>mix_channel := map_option (map (stop_if_chunk p)) (mix_channel s)\<rparr> \<and>
           (\<forall>c \<in> set (the_channels s1). chunk c = Some p \<longrightarrow> playing c = 0 \<and> looping c = 0) \<and>
           Mix_FreeChunk (Some p) s = free_release p s1 \<and>
           free_release p s1 =
             Inr (s1\<lparr>chunks := (chunks s)(p := None),
                     trace := trace s @
                       (if allocated ck \<noteq> 0 then [Free_Mem (abuf ck)] else [])\<rparr>)"
proof (cases "mix_channel s")
  case None
  then have "free_stop_channels p s = Inr s" by (simp add: free_stop_channels_def)
  moreover have "s\<lparr>mix_channel := map_option (map (stop_if_chunk p)) (mix_channel s)\<rparr> = s"
    using None by simp
  ultimately show ?thesis
    using assms(2) None by (simp add: Mix_FreeChunk_def free_release_def the_channels_def)
next
  case (Some chs)
  with assms(1) have n: "num_channels s = int (length chs)" by (simp add: bank_ok_def)
  have st: "free_stop_channels p s = Inr (s\<lparr>mix_channel := Some (map (stop_if_chunk p) chs)\<rparr>)"
    using Some n by (rule free_stop_channels_ok)
  show ?thesis
    using st Some assms(2)
    by (auto simp: Mix_FreeChunk_def free_release_def the_channels_def stop_if_chunk_def)
qed

theorem free_chunk_stops_then_releases_witness:
  "Mix_FreeChunk (Some 1) ex_two_playing =
     Inr (ex_mixer\<lparr>mix_channel := Some [ex_channel\<lparr>chunk := Some 1\<rparr>, ex_channel\<lparr>chunk := Some 1\<rparr>],
                   chunks := Map.empty, trace := [Free_Mem 1000]\<rparr>)"
proof -
  have h: "mix_channel ex_two_playing = None \<or> bank_ok ex_two_playing"
    "chunks ex_two_playing 1 = Some ex_chunk"
    by (simp_all add: ex_two_playing_def ex_mixer_def bank_ok_def)
  from free_chunk_stops_then_releases [OF h] obtain s1 where
    s1: "s1 = ex_two_playing\<lparr>mix_channel :=
               map_option (map (stop_if_chunk 1)) (mix_channel ex_two_playing)\<rparr>"
    and f: "Mix_FreeChunk (Some 1) ex_two_playing = free_release 1 s1"
    and r: "free_release 1 s1 =
             Inr (s1\<lparr>chunks := (chunks ex_two_playing)(1 := None),
                     trace := trace ex_two_playing @
                       (if allocated ex_chunk \<noteq> 0 then [Free_Mem (abuf ex_chunk)] else [])\<rparr>)"
    by blast
  from f r show ?thesis
    unfolding s1
    by (simp add: ex_two_playing_def ex_mixer_def ex_channel_def ex_chunk_def stop_if_chunk_def)
qed

section \<open>Resizing the channel bank\<close>

lemma is_default_init: "is_default (init_channel c)"
  by (simp add: is_default_def init_channel_def)

lemma halt_range:
  fixes n :: nat
  assumes "mix_channel s = Some chs" and "num_channels s = int (length chs)" and "n \<le> length chs"
  shows "\<exists>chs'. for_channels Mix_HaltChannel (int n) (int (length chs)) s =
             Inr (s\<lparr>mix_channel := Some chs',
                    trace := trace s @ concat (map (\<lambda>k. snd (halt_channel (channel_done_callback s)
                                (int k) (chs ! k))) [n..<length chs])\<rparr>) \<and>
           length chs' = length chs \<and>
           (\<forall>j<length chs. chs' ! j =
              (if n \<le> j \<and> j < length chs
               then fst (halt_channel (channel_done_callback s) (int j) (chs ! j)) else chs ! j))"
proof (rule for_channels_update
    [where f = "\<lambda>k c. Inr (halt_channel (channel_done_callback s) (int k) c)"])
  show "mix_channel s = Some chs" by fact
  show "length chs \<le> length chs" by simp
  show "Mix_HaltChannel (int k) s' =
          update_channel (int k) (\<lambda>c. Inr (halt_channel (channel_done_callback s) (int k) c)) s'"
    if "same_env s s'" "n \<le> k" "k < length chs" for k s'
    using that assms(2) by (simp add: Mix_HaltChannel_def Mix_HaltChannel_one_def same_env_def)
  show "Inr (halt_channel (channel_done_callback s) (int k) (chs ! k)) =
          Inr (fst (halt_channel (channel_done_callback s) (int k) (chs ! k)),
               snd (halt_channel (channel_done_callback s) (int k) (chs ! k)))"
    if "n \<le> k" "k < length chs" for k
    by simp
qed

lemma init_range:
  fixes n :: nat
  assumes "mix_channel s = Some chs" and "lo \<le> length chs"
  shows "for_channels (\<lambda>i. update_channel i (\<lambda>c. Inr (init_channel c, []))) (int lo)
             (int (length chs)) s =
           Inr (s\<lparr>mix_channel := Some (take lo chs @ map init_channel (drop lo chs))\<rparr>)"
proof -
  have "\<exists>chs'. for_channels (\<lambda>i. update_channel i (\<lambda>c. Inr (init_channel c, []))) (int lo)
                  (int (length chs)) s =
             Inr (s\<lparr>mix_channel := Some chs',
                    trace := trace s @ concat (map (\<lambda>k. []) [lo..<length chs])\<rparr>) \<and>
           length chs' = length chs \<and>
           (\<forall>j<length chs. chs' ! j =
              (if lo \<le> j \<and> j < length chs then init_channel (chs ! j) else chs ! j))"
    by (rule for_channels_update [where f = "\<lambda>k c. Inr (init_channel c, [])"])
       (use assms in simp_all)
  then obtain chs' where r: "for_channels (\<lambda>i. update_channel i (\<lambda>c. Inr (init_channel c, [])))
                  (int lo) (int (length chs)) s = Inr (s\<lparr>mix_channel := Some chs'\<rparr>)"
    and len: "length chs' = length chs"
    and nth: "\<forall>j<length chs. chs' ! j = (if lo \<le> j then init_channel (chs ! j) else chs ! j)"
    by (auto simp: concat_map_Nil)
  have "chs' = take lo chs @ map init_channel (drop lo chs)"
    using len nth assms(2) by (intro nth_equalityI) (auto simp: nth_append)
  with r show ?thesis by simp
qed


lemma allocate_channels_ok:
  assumes chs: "mix_channel s = Some chs" and n: "num_channels s = int (length chs)" and N: "0 \<le> N"
  shows "Mix_AllocateChannels junk N s =
           Inr (N, s\<lparr>mix_channel :=
                        Some (take (nat N) chs @
                              map (\<lambda>k. init_channel (junk k)) [length chs..<nat N]),
                      num_channels := N,
                      trace := trace s @
                        concat (map (\<lambda>k. snd (halt_channel (channel_done_callback s) (int k)
                                                 (chs ! k))) [nat N..<length chs])\<rparr>)"
proof -
  consider (same) "N = int (length chs)" | (shrink) "N < int (length chs)"
    | (grow) "N > int (length chs)" by linarith
  then show ?thesis
  proof cases
    case same
    then show ?thesis using chs n by (simp add: Mix_AllocateChannels_def)
  next
    case shrink
    let ?tr = "trace s @ concat (map (\<lambda>k. snd (halt_channel (channel_done_callback s) (int k)
                                                 (chs ! k))) [nat N..<length chs])"
    from shrink N have le: "nat N \<le> length chs" by simp
    from halt_range [OF chs n le] obtain chs' where
      h: "for_channels Mix_HaltChannel (int (nat N)) (int (length chs)) s =
            Inr (s\<lparr>mix_channel := Some chs', trace := ?tr\<rparr>)"
      and len: "length chs' = length chs"
      and nth: "\<forall>j<length chs. chs' ! j =
              (if nat N \<le> j \<and> j < length chs
               then fst (halt_channel (channel_done_callback s) (int j) (chs ! j)) else chs ! j)"
      by blast
    have tk: "take (nat N) chs' = take (nat N) chs"
      using len nth le by (intro nth_equalityI) simp_all
    have "realloc_channels junk (nat N) (Some chs') = Some (take (nat N) chs)"
      using tk len le by (simp add: realloc_channels_def)
    moreover have "[length chs..<nat N] = []" using le by simp
    ultimately show ?thesis
      using h shrink N n chs by (simp add: Mix_AllocateChannels_def)
  next
    case grow
    let ?chs2 = "chs @ map junk [length chs..<nat N]"
    let ?s2 = "s\<lparr>mix_channel := Some ?chs2\<rparr>"
    from grow have lt: "length chs < nat N" by simp
    have re: "realloc_channels junk (nat N) (Some chs) = Some ?chs2"
      using lt by (simp add: realloc_channels_def)
    have len2: "length ?chs2 = nat N" using lt by simp
    have "for_channels (\<lambda>i. update_channel i (\<lambda>c. Inr (init_channel c, [])))
             (int (length chs)) (int (length ?chs2)) ?s2 =
           Inr (?s2\<lparr>mix_channel :=
                  Some (take (length chs) ?chs2 @ map init_channel (drop (length chs) ?chs2))\<rparr>)"
      by (rule init_range) simp_all
    then have "for_channels (\<lambda>i. update_channel i (\<lambda>c. Inr (init_channel c, [])))
             (int (length chs)) N ?s2 =
           Inr (s\<lparr>mix_channel :=
                  Some (chs @ map (\<lambda>k. init_channel (junk k)) [length chs..<nat N])\<rparr>)"
      using len2 N by (simp add: comp_def)
    moreover have "[nat N..<length chs] = []" using lt by simp
    ultimately show ?thesis
      using re grow N n chs lt by (simp add: Mix_AllocateChannels_def)
  qed
qed

lemma allocate_channels_query:
  assumes "N < 0"
  shows "Mix_AllocateChannels junk N s = Inr (num_channels s, s)"
  using assms by (simp add: Mix_AllocateChannels_def)

lemma allocate_channels_bank_ok:
  assumes "bank_ok s"
  shows "\<exists>r s'. Mix_AllocateChannels junk N s = Inr (r, s') \<and> bank_ok s'"
proof (cases "N < 0")
  case True
  then show ?thesis using assms by (simp add: allocate_channels_query)
next
  case False
  from assms obtain chs where chs: "mix_channel s = Some chs" and n: "num_channels s = int (length chs)"
    by (auto simp: bank_ok_def split: option.splits)
  from False have N: "0 \<le> N" by simp
  show ?thesis
    using allocate_channels_ok [OF chs n N, of junk] N
    by (auto simp: bank_ok_def)
qed

lemma allocate_many_bank_ok:
  "bank_ok s \<Longrightarrow> \<exists>s'. allocate_many rs s = Inr s' \<and> bank_ok s'"
proof (induction rs arbitrary: s)
  case Nil
  then show ?case by simp
next
  case (Cons a rs)
  obtain junk n where a: "a = (junk, n)" by (cases a)
  from allocate_channels_bank_ok [OF Cons.prems, of junk n] obtain r s1
    where s1: "Mix_AllocateChannels junk n s = Inr (r, s1)" "bank_ok s1" by blast
  from Cons.IH [OF s1(2)] show ?case using a s1(1) by simp
qed


text \<open>
  Claim C8, as stated, fails for a negative argument: the call is then a query that
  returns the current count and leaves the bank as it is, so the bank does not hold \<open>N\<close>
  channels afterwards.
\<close>

theorem allocate_negative_is_query:
  "Mix_AllocateChannels (\<lambda>k. ex_channel) (-1) ex_mixer = Inr (2, ex_mixer) \<and>
   length (the_channels ex_mixer) = 2"
  by (simp add: Mix_AllocateChannels_def ex_mixer_def the_channels_def)

text \<open>
  Claim C8, amended. From a well-formed bank, after any run of resizes (which all succeed
  and leave the bank well formed), \<^verbatim>\<open>Mix_AllocateChannels\<close> with \<open>N \<ge> 0\<close> returns \<open>N\<close> and
  the bank holds exactly \<open>N\<close> channels: the channels below the previous count are kept as
  they were, the channels beyond it hold the defaults, and when the bank shrinks the
  halt loop has run over the removed range before the array is resized (each removed
  channel is left with \<open>playing = 0\<close>, no expiration and no fade, and the callbacks of
  that loop are the only additions to the trace).
\<close>

theorem allocate_channels_resizes:
  assumes "bank_ok s0" and "0 \<le> N"
  shows "\<exists>s s'. allocate_many rs s0 = Inr s \<and> bank_ok s \<and>
           Mix_AllocateChannels junk N s = Inr (N, s') \<and>
           bank_ok s' \<and> num_channels s' = N \<and> length (the_channels s') = nat N \<and>
           (\<forall>j < nat N. if j < length (the_channels s)
                         then the_channels s' ! j = the_channels s ! j
                         else is_default (the_channels s' ! j)) \<and>
           (N < num_channels s \<longrightarrow>
              (\<exists>s1. for_channels Mix_HaltChannel N (num_channels s) s = Inr s1 \<and>
                    (\<forall>j. nat N \<le> j \<and> j < length (the_channels s) \<longrightarrow>
                         the_channels s1 ! j =
                           fst (halt_channel (channel_done_callback s) (int j)
                                  (the_channels s ! j)) \<and>
                         playing (the_channels s1 ! j) = 0 \<and>
                         expire (the_channels s1 ! j) = 0 \<and>
                         fading (the_channels s1 ! j) = MIX_NO_FADING) \<and>
                    trace s' = trace s1))"
proof -
  from allocate_many_bank_ok [OF assms(1), of rs] obtain s
    where s: "allocate_many rs s0 = Inr s" "bank_ok s" by blast
  from s(2) obtain chs where chs: "mix_channel s = Some chs"
    and n: "num_channels s = int (length chs)"
    by (auto simp: bank_ok_def split: option.splits)
  let ?cb = "channel_done_callback s"
  let ?chs' = "take (nat N) chs @ map (\<lambda>k. init_channel (junk k)) [length chs..<nat N]"
  let ?tr = "trace s @ concat (map (\<lambda>k. snd (halt_channel ?cb (int k) (chs ! k)))
                                 [nat N..<length chs])"
  let ?s' = "s\<lparr>mix_channel := Some ?chs', num_channels := N, trace := ?tr\<rparr>"
  have a: "Mix_AllocateChannels junk N s = Inr (N, ?s')"
    by (rule allocate_channels_ok [OF chs n assms(2)])
  have len: "length ?chs' = nat N" by auto
  have ok': "bank_ok ?s'" using assms(2) len by (simp add: bank_ok_def)
  have tc: "the_channels s = chs" using chs by (simp add: the_channels_def)
  have keep: "\<forall>j < nat N. if j < length (the_channels s)
                         then the_channels ?s' ! j = the_channels s ! j
                         else is_default (the_channels ?s' ! j)"
    unfolding tc by (auto simp: the_channels_def nth_append is_default_init)
  have halt: "N < num_channels s \<longrightarrow>
              (\<exists>s1. for_channels Mix_HaltChannel N (num_channels s) s = Inr s1 \<and>
                    (\<forall>j. nat N \<le> j \<and> j < length (the_channels s) \<longrightarrow>
                         the_channels s1 ! j =
                           fst (halt_channel (channel_done_callback s) (int j)
                                  (the_channels s ! j)) \<and>
                         playing (the_channels s1 ! j) = 0 \<and>
                         expire (the_channels s1 ! j) = 0 \<and>
                         fading (the_channels s1 ! j) = MIX_NO_FADING) \<and>
                    trace ?s' = trace s1)"
  proof
    assume lt: "N < num_channels s"
    from lt n assms(2) have le: "nat N \<le> length chs" by simp
    from halt_range [OF chs n le] obtain chs1 where
      h: "for_channels Mix_HaltChannel (int (nat N)) (int (length chs)) s =
            Inr (s\<lparr>mix_channel := Some chs1, trace := ?tr\<rparr>)"
      and nth: "\<forall>j<length chs. chs1 ! j =
              (if nat N \<le> j \<and> j < length chs
               then fst (halt_channel ?cb (int j) (chs ! j)) else chs ! j)"
      by blast
    have "playing (fst (halt_channel cb i c)) = 0 \<and> expire (fst (halt_channel cb i c)) = 0 \<and>
          fading (fst (halt_channel cb i c)) = MIX_NO_FADING" for cb i c
      by (simp add: halt_channel_def Let_def)
    with h nth assms(2) n show "\<exists>s1. for_channels Mix_HaltChannel N (num_channels s) s = Inr s1 \<and>
                    (\<forall>j. nat N \<le> j \<and> j < length (the_channels s) \<longrightarrow>
                         the_channels s1 ! j =
                           fst (halt_channel (channel_done_callback s) (int j)
                                  (the_channels s ! j)) \<and>
                         playing (the_channels s1 ! j) = 0 \<and>
                         expire (the_channels s1 ! j) = 0 \<and>
                         fading (the_channels s1 ! j) = MIX_NO_FADING) \<and>
                    trace ?s' = trace s1"
      unfolding tc
      by (intro exI [of _ "s\<lparr>mix_channel := Some chs1, trace := ?tr\<rparr>"])
         (simp add: the_channels_def)
  qed
  show ?thesis
  proof (rule exI [of _ s], rule exI [of _ ?s'], intro conjI)
    show "allocate_many rs s0 = Inr s" by fact
    show "bank_ok s" by fact
    show "Mix_AllocateChannels junk N s = Inr (N, ?s')" by fact
    show "bank_ok ?s'" by fact
    show "num_channels ?s' = N" by simp
    show "length (the_channels ?s') = nat N" using len by (simp add: the_channels_def)
  qed (use keep halt in blast)+
qed

theorem allocate_channels_resizes_witness:
  "\<exists>s s'. allocate_many [(\<lambda>k. ex_channel\<lparr>playing := 9\<rparr>, 1)] ex_two_playing = Inr s \<and>
      Mix_AllocateChannels (\<lambda>k. ex_channel\<lparr>playing := 9\<rparr>) 3 s = Inr (3, s') \<and>
      length (the_channels s) = 1 \<and> trace s = [Channel_Done 1] \<and>
      length (the_channels s') = 3 \<and> num_channels s' = 3 \<and>
      the_channels s' ! 0 = ex_channel\<lparr>chunk := Some 1, playing := 4\<rparr> \<and>
      is_default (the_channels s' ! 1) \<and> is_default (the_channels s' ! 2)"
proof -
  let ?junk = "\<lambda>k :: nat. ex_channel\<lparr>playing := 9\<rparr>"
  have ok: "bank_ok ex_two_playing" by (simp add: ex_two_playing_def ex_mixer_def bank_ok_def)
  from allocate_channels_resizes [OF ok, of 3 "[(?junk, 1)]" ?junk]
  obtain s s' where a: "allocate_many [(?junk, 1)] ex_two_playing = Inr s"
    and b: "Mix_AllocateChannels ?junk 3 s = Inr (3, s')"
    and n: "num_channels s' = 3" "length (the_channels s') = nat 3"
    and k: "\<forall>j < nat 3. if j < length (the_channels s)
                         then the_channels s' ! j = the_channels s ! j
                         else is_default (the_channels s' ! j)"
    by auto
  have "allocate_many [(?junk, 1)] ex_two_playing =
     Inr (ex_mixer\<lparr>mix_channel := Some [ex_channel\<lparr>chunk := Some 1, playing := 4\<rparr>],
                   num_channels := 1, trace := [Channel_Done 1]\<rparr>)"
    by (simp add: ex_two_playing_def ex_mixer_def ex_channel_def
      Mix_AllocateChannels_def for_channels.simps Mix_HaltChannel_def Mix_HaltChannel_one_def
      update_channel_def halt_channel_def Mix_channel_done_playing_def realloc_channels_def
      Let_def)
  with a have s: "s = ex_mixer\<lparr>mix_channel := Some [ex_channel\<lparr>chunk := Some 1, playing := 4\<rparr>],
                   num_channels := 1, trace := [Channel_Done 1]\<rparr>" by simp
  have ls: "length (the_channels s) = 1" "trace s = [Channel_Done 1]"
    "the_channels s ! 0 = ex_channel\<lparr>chunk := Some 1, playing := 4\<rparr>"
    unfolding s by (simp_all add: the_channels_def)
  from k [rule_format, of 0] k [rule_format, of 1] k [rule_format, of 2] ls
  have "the_channels s' ! 0 = ex_channel\<lparr>chunk := Some 1, playing := 4\<rparr>"
    "is_default (the_channels s' ! 1)" "is_default (the_channels s' ! 2)"
    by simp_all
  with a b n ls show ?thesis by auto
qed

section \<open>The mixing callback\<close>

lemma other_fields_eqD:
  assumes "other_fields c' = other_fields c"
  shows "chunk c' = chunk c" "paused c' = paused c" "volume c' = volume c" "tag c' = tag c"
    "expire c' = expire c" "start_time c' = start_time c" "fading c' = fading c"
    "fade_volume c' = fade_volume c" "fade_volume_reset c' = fade_volume_reset c"
    "fade_length c' = fade_length c" "ticks_fade c' = ticks_fade c" "effects c' = effects c"
proof -
  have "f (other_fields c') = f (other_fields c)" for f :: "Mix_Channel \<Rightarrow> 'b"
    using assms by simp
  note e = this
  show "chunk c' = chunk c" using e [of chunk] by (simp add: other_fields_def)
  show "paused c' = paused c" using e [of paused] by (simp add: other_fields_def)
  show "volume c' = volume c" using e [of volume] by (simp add: other_fields_def)
  show "tag c' = tag c" using e [of tag] by (simp add: other_fields_def)
  show "expire c' = expire c" using e [of expire] by (simp add: other_fields_def)
  show "start_time c' = start_time c" using e [of start_time] by (simp add: other_fields_def)
  show "fading c' = fading c" using e [of fading] by (simp add: other_fields_def)
  show "fade_volume c' = fade_volume c" using e [of fade_volume] by (simp add: other_fields_def)
  show "fade_volume_reset c' = fade_volume_reset c"
    using e [of fade_volume_reset] by (simp add: other_fields_def)
  show "fade_length c' = fade_length c" using e [of fade_length] by (simp add: other_fields_def)
  show "ticks_fade c' = ticks_fade c" using e [of ticks_fade] by (simp add: other_fields_def)
  show "effects c' = effects c" using e [of effects] by (simp add: other_fields_def)
qed

lemma bytes_mixed_simps [simp]:
  "bytes_mixed w [] = 0"
  "bytes_mixed w (e # es) = event_bytes w e + bytes_mixed w es"
  "bytes_mixed w (xs @ ys) = bytes_mixed w xs + bytes_mixed w ys"
  by (simp_all add: bytes_mixed_def)

lemma done_count_simps [simp]:
  "done_count w [] = 0"
  "done_count w (e # es) = (if e = Channel_Done w then 1 else 0) + done_count w es"
  "done_count w (xs @ ys) = done_count w xs + done_count w ys"
  by (simp_all add: done_count_def)

lemma events_of_simps [simp]:
  "events_of i []"
  "events_of i (e # es) \<longleftrightarrow> event_channel e = Some i \<and> events_of i es"
  "events_of i (xs @ ys) \<longleftrightarrow> events_of i xs \<and> events_of i ys"
  by (simp_all add: events_of_def)

lemma events_of_done [simp]: "events_of i (Mix_channel_done_playing cb i)"
  by (simp add: Mix_channel_done_playing_def)

lemma bytes_done [simp]: "bytes_mixed w (Mix_channel_done_playing cb i) = 0"
  by (simp add: Mix_channel_done_playing_def)

lemma events_of_other:
  "events_of i evs \<Longrightarrow> i \<noteq> w \<Longrightarrow> bytes_mixed w evs = 0 \<and> done_count w evs = 0"
  by (induction evs) (auto elim: event_channel.elims)

text \<open>The first loop runs at most once: it ends the pass or fills the buffer.\<close>

lemma mix_playing_done: "playing c \<le> 0 \<Longrightarrow> mix_playing cb heap len i index vol c = Inr (index, vol, c, [])"
  by (subst mix_playing.simps) simp

lemma mix_playing_full: "len \<le> index \<Longrightarrow> mix_playing cb heap len i index vol c = Inr (index, vol, c, [])"
  by (subst mix_playing.simps) simp

lemma mix_playing_once:
  assumes "playing c > 0" and "index < len" and "chunk_of heap c = Some ck"
  shows "mix_playing cb heap len i index vol c =
           (let m = (if playing c > len - index then len - index else playing c);
                v = c_div (volume c * chunk_volume ck) MIX_MAX_VOLUME
            in Inr (index + m, v, c\<lparr>samples := samples c + m, playing := playing c - m\<rparr>,
                    Mix_Audio i index (samples c) m v #
                    (if playing c - m = 0 \<and> looping c = 0
                     then Mix_channel_done_playing cb i else [])))"
proof (cases "playing c > len - index")
  case True
  then show ?thesis
    using assms by (subst mix_playing.simps) (simp add: Let_def mix_playing_full)
next
  case False
  then show ?thesis
    using assms by (subst mix_playing.simps) (simp add: Let_def mix_playing_done)
qed

lemma mix_looping_stop:
  "\<not> (looping c \<noteq> 0 \<and> index < len) \<Longrightarrow> mix_looping heap len i index vol c = Inr (index, c, [])"
  by (subst mix_looping.simps) auto

lemma mix_looping_run:
  assumes "chunk_of heap c = Some ck" and "0 < alen ck" and "index \<le> len"
    and "alen ck < 2 ^ 31"
  shows "\<exists>index' c' evs. mix_looping heap len i index vol c = Inr (index', c', evs) \<and>
           other_fields c' = other_fields c \<and>
           events_of i evs \<and> done_count w evs = 0 \<and>
           bytes_mixed i evs = index' - index \<and> index \<le> index' \<and> index' \<le> len \<and>
           (looping c' = 0 \<or> index' = len) \<and>
           (looping c \<noteq> 0 \<and> index < len \<longrightarrow> 0 \<le> playing c' \<and> playing c' < int (alen ck)) \<and>
           (looping c < 0 \<longrightarrow> looping c' = looping c) \<and>
           (0 \<le> looping c \<longrightarrow> 0 \<le> looping c' \<and>
              (looping c \<noteq> 0 \<and> index < len \<longrightarrow>
                 playing c' + looping c' * int (alen ck) =
                   looping c * int (alen ck) - (index' - index))) \<and>
           (looping c \<noteq> 0 \<and> index < len \<and> index' < len \<longrightarrow> playing c' = 0) \<and>
           (\<not> (looping c \<noteq> 0 \<and> index < len) \<longrightarrow> c' = c \<and> index' = index)"
  using assms
proof (induction heap len i index vol c rule: mix_looping.induct)
  case (1 heap len i index vol c)
  show ?case
  proof (cases "looping c \<noteq> 0 \<and> index < len")
    case False
    then have "mix_looping heap len i index vol c = Inr (index, c, [])"
      by (rule mix_looping_stop)
    with False "1.prems" show ?thesis by auto
  next
    case True
    have a: "sint (alen32 ck) = int (alen ck)" using "1.prems"(4) by (rule alen32_small)
    define r where "r = (if sint (alen32 ck) < len - index then sint (alen32 ck) else len - index)"
    define c1 where "c1 = c\<lparr>looping := (if 0 < looping c then looping c - 1 else looping c),
                            samples := abuf ck + r,
                            playing := sint (alen32 ck - word_of_int r)\<rparr>"
    have r: "0 < r" "r \<le> len - index" "r \<le> int (alen ck)"
      using True "1.prems"(2) a by (auto simp: r_def)
    have rL: "r = int (alen ck)" if "index + r < len"
      using that a by (auto simp: r_def split: if_splits)
    have ch1: "chunk_of heap c1 = Some ck"
      using "1.prems"(1) by (simp add: c1_def chunk_of_def)
    have nonneg: "\<not> sint (alen32 ck) < 0" using a by simp
    have noexit: "\<not> (sint (alen32 ck) = 0 \<and> looping c < 0)" using "1.prems"(2) a by simp
    have le1: "index + r \<le> len" using r by simp
    from "1.IH" [OF True "1.prems"(1) nonneg noexit r_def c1_def ch1 "1.prems"(2) le1 "1.prems"(4)]
    obtain index' c' evs where
      run: "mix_looping heap len i (index + r) vol c1 = Inr (index', c', evs)"
      and same: "other_fields c' = other_fields c1"
      and ev: "events_of i evs" "done_count w evs = 0"
      and bts: "bytes_mixed i evs = index' - (index + r)" "index + r \<le> index'" "index' \<le> len"
      and ex: "looping c' = 0 \<or> index' = len"
      and pl: "looping c1 \<noteq> 0 \<and> index + r < len \<longrightarrow> 0 \<le> playing c' \<and> playing c' < int (alen ck)"
      and neg: "looping c1 < 0 \<longrightarrow> looping c' = looping c1"
      and pos: "0 \<le> looping c1 \<longrightarrow> 0 \<le> looping c' \<and>
              (looping c1 \<noteq> 0 \<and> index + r < len \<longrightarrow>
                 playing c' + looping c' * int (alen ck) =
                   looping c1 * int (alen ck) - (index' - (index + r)))"
      and fin: "looping c1 \<noteq> 0 \<and> index + r < len \<and> index' < len \<longrightarrow> playing c' = 0"
      and idle: "\<not> (looping c1 \<noteq> 0 \<and> index + r < len) \<longrightarrow> c' = c1 \<and> index' = index + r"
      by blast
    have res: "mix_looping heap len i index vol c =
                 Inr (index', c', Mix_Audio i index (abuf ck) r vol # evs)"
      using True "1.prems"(1) nonneg noexit run
      by (subst mix_looping.simps) (simp add: Let_def r_def [symmetric] c1_def [symmetric])
    have same': "other_fields c' = other_fields c"
      using same by (simp add: c1_def other_fields_def)
    have l1: "looping c1 = (if 0 < looping c then looping c - 1 else looping c)"
      by (simp add: c1_def)
    have p1: "playing c1 = int (alen ck) - r"
      using alen32_sub [OF "1.prems"(4) _ r(3)] r(1) by (simp add: c1_def)
    have play: "0 \<le> playing c' \<and> playing c' < int (alen ck)"
    proof (cases "looping c1 \<noteq> 0 \<and> index + r < len")
      case True
      with pl show ?thesis by simp
    next
      case False
      with idle have "c' = c1" by simp
      with p1 r show ?thesis by simp
    qed
    have neg': "looping c < 0 \<longrightarrow> looping c' = looping c"
      using neg l1 by simp
    have pos': "0 \<le> looping c \<longrightarrow> 0 \<le> looping c' \<and>
                 playing c' + looping c' * int (alen ck) =
                   looping c * int (alen ck) - (index' - index)"
    proof
      assume "0 \<le> looping c"
      with True have k: "0 < looping c" by simp
      then have l1': "looping c1 = looping c - 1" using l1 by simp
      with pos k have nn: "0 \<le> looping c'" by simp
      have "playing c' + looping c' * int (alen ck) =
              looping c * int (alen ck) - (index' - index)"
      proof (cases "looping c1 \<noteq> 0 \<and> index + r < len")
        case True
        with pos l1' k have "playing c' + looping c' * int (alen ck) =
            (looping c - 1) * int (alen ck) - (index' - (index + r))" by simp
        moreover have "r = int (alen ck)" using True rL by simp
        ultimately show ?thesis by (simp add: left_diff_distrib)
      next
        case False
        with idle have e: "c' = c1" "index' = index + r" by simp_all
        have "playing c' + looping c' * int (alen ck) =
                (int (alen ck) - r) + (looping c - 1) * int (alen ck)"
          using e p1 l1' by simp
        also have "\<dots> = looping c * int (alen ck) - r"
          by (simp add: left_diff_distrib)
        finally show ?thesis using e by simp
      qed
      with nn show "0 \<le> looping c' \<and>
                 playing c' + looping c' * int (alen ck) =
                   looping c * int (alen ck) - (index' - index)" by simp
    qed
    have fin': "index' < len \<longrightarrow> playing c' = 0"
    proof (cases "looping c1 \<noteq> 0 \<and> index + r < len")
      case True
      with fin show ?thesis by simp
    next
      case False
      with idle have e: "c' = c1" "index' = index + r" by simp_all
      show ?thesis using e p1 rL by auto
    qed
    show ?thesis
      using res same' ev bts ex play neg' pos' fin' True r
      by (intro exI [of _ index'] exI [of _ c'] exI [of _ "Mix_Audio i index (abuf ck) r vol # evs"])
         auto
  qed
qed

lemma mix_samples_idle: "playing c \<le> 0 \<Longrightarrow> mix_samples cb heap len i c = Inr (c, [])"
  by (simp add: mix_samples_def)

lemma mix_samples_run:
  assumes ck: "chunk_of heap c = Some ck" and L: "0 < alen ck" and p: "0 < playing c"
    and len: "0 \<le> len" and sm: "alen ck < 2 ^ 31"
  shows "\<exists>c' evs. mix_samples cb heap len i c = Inr (c', evs) \<and>
           other_fields c' = other_fields c \<and>
           events_of i evs \<and>
           (looping c < 0 \<longrightarrow> looping c' = looping c \<and> 0 < playing c' \<and> bytes_mixed i evs = len) \<and>
           (0 \<le> looping c \<longrightarrow>
              0 \<le> looping c' \<and> 0 \<le> playing c' \<and> (playing c' = 0 \<longrightarrow> looping c' = 0) \<and>
              bytes_mixed i evs = min len (playing c + looping c * int (alen ck)) \<and>
              playing c' + looping c' * int (alen ck) =
                playing c + looping c * int (alen ck) - bytes_mixed i evs) \<and>
           (looping c = 0 \<longrightarrow> looping c' = 0 \<and>
              done_count i evs = (if cb \<and> playing c \<le> len then 1 else 0))"
proof -
  define m where "m = (if playing c > len then len else playing c)"
  define v where "v = c_div (volume c * chunk_volume ck) MIX_MAX_VOLUME"
  define c1 where "c1 = (if 0 < len then c\<lparr>samples := samples c + m, playing := playing c - m\<rparr> else c)"
  define ev1 where "ev1 = (if 0 < len then Mix_Audio i 0 (samples c) m v #
                    (if playing c - m = 0 \<and> looping c = 0
                     then Mix_channel_done_playing cb i else []) else [])"
  define v1 where "v1 = (if 0 < len then v else SDL_MIX_MAXVOLUME)"
  define i1 where "i1 = (if 0 < len then m else 0)"
  have first: "mix_playing cb heap len i 0 SDL_MIX_MAXVOLUME c = Inr (i1, v1, c1, ev1)"
  proof (cases "0 < len")
    case True
    then show ?thesis
      using mix_playing_once [OF p True ck, of cb i SDL_MIX_MAXVOLUME]
      by (simp add: Let_def i1_def v1_def c1_def ev1_def m_def v_def)
  next
    case False
    then show ?thesis
      by (simp add: mix_playing_full i1_def v1_def c1_def ev1_def)
  qed
  have m: "0 \<le> m" "m \<le> len" "m \<le> playing c" "0 < len \<longrightarrow> 0 < m"
    using p len by (auto simp: m_def)
  have i1: "0 \<le> i1" "i1 \<le> len" using m len by (auto simp: i1_def)
  have ck1: "chunk_of heap c1 = Some ck" using ck by (simp add: c1_def chunk_of_def)
  have l1: "looping c1 = looping c" by (simp add: c1_def)
  have p1: "playing c1 = playing c - i1" by (simp add: c1_def i1_def)
  have p1z: "i1 < len \<longrightarrow> playing c1 = 0"
    using p len by (auto simp: c1_def i1_def m_def)
  have same1: "other_fields c1 = other_fields c"
    by (simp add: c1_def other_fields_def)
  have ev1: "events_of i ev1" "bytes_mixed i ev1 = i1"
    by (simp_all add: ev1_def i1_def)
  have d1: "done_count i ev1 = (if cb \<and> playing c \<le> len \<and> looping c = 0 then 1 else 0)"
    using p len by (auto simp: ev1_def m_def Mix_channel_done_playing_def)
  from mix_looping_run [OF ck1 L i1(2) sm, of i v1 i]
  obtain i2 c2 ev2 where
    run: "mix_looping heap len i i1 v1 c1 = Inr (i2, c2, ev2)"
    and same2: "other_fields c2 = other_fields c1"
    and ev2: "events_of i ev2" "done_count i ev2 = 0"
    and bts: "bytes_mixed i ev2 = i2 - i1" "i1 \<le> i2" "i2 \<le> len"
    and ex: "looping c2 = 0 \<or> i2 = len"
    and pl: "looping c1 \<noteq> 0 \<and> i1 < len \<longrightarrow> 0 \<le> playing c2 \<and> playing c2 < int (alen ck)"
    and neg: "looping c1 < 0 \<longrightarrow> looping c2 = looping c1"
    and pos: "0 \<le> looping c1 \<longrightarrow> 0 \<le> looping c2 \<and>
              (looping c1 \<noteq> 0 \<and> i1 < len \<longrightarrow>
                 playing c2 + looping c2 * int (alen ck) = looping c1 * int (alen ck) - (i2 - i1))"
    and fin: "looping c1 \<noteq> 0 \<and> i1 < len \<and> i2 < len \<longrightarrow> playing c2 = 0"
    and idle: "\<not> (looping c1 \<noteq> 0 \<and> i1 < len) \<longrightarrow> c2 = c1 \<and> i2 = i1"
    by blast
  define c3 where "c3 = (if playing c2 = 0 \<and> looping c2 \<noteq> 0
                          then c2\<lparr>looping := (if looping c2 > 0 then looping c2 - 1 else looping c2),
                                  samples := abuf ck, playing := int (alen ck)\<rparr>
                          else c2)"
  have ck2: "chunk_of heap c2 = Some ck"
    using ck1 other_fields_eqD(1) [OF same2] by (simp add: chunk_of_def)
  have res: "mix_samples cb heap len i c = Inr (c3, ev1 @ ev2)"
    using p first run ck2 by (simp add: mix_samples_def c3_def alen32_small [OF sm])
  have "other_fields c3 = other_fields c2"
    by (simp add: c3_def other_fields_def)
  with same2 same1 have same3: "other_fields c3 = other_fields c" by simp
  have p2: "0 \<le> playing c2"
  proof (cases "looping c1 \<noteq> 0 \<and> i1 < len")
    case True
    with pl show ?thesis by simp
  next
    case False
    with idle p1 m i1 show ?thesis by (auto simp: i1_def split: if_splits)
  qed
  have l3: "looping c3 = (if playing c2 = 0 \<and> 0 < looping c2 then looping c2 - 1 else looping c2)"
    and p3: "playing c3 = (if playing c2 = 0 \<and> looping c2 \<noteq> 0 then int (alen ck) else playing c2)"
    by (auto simp: c3_def)
  have inf: "looping c3 = looping c \<and> 0 < playing c3 \<and> bytes_mixed i (ev1 @ ev2) = len"
    if n: "looping c < 0"
  proof -
    from n neg l1 have l2: "looping c2 = looping c" by simp
    with ex n have "i2 = len" by simp
    with bts ev1 have "bytes_mixed i (ev1 @ ev2) = len" by simp
    moreover have "looping c3 = looping c" using l3 l2 n by simp
    moreover have "0 < playing c3" using p3 p2 L l2 n by auto
    ultimately show ?thesis by simp
  qed
  have finite: "0 \<le> looping c3 \<and> 0 \<le> playing c3 \<and> (playing c3 = 0 \<longrightarrow> looping c3 = 0) \<and>
              bytes_mixed i (ev1 @ ev2) = min len (playing c + looping c * int (alen ck)) \<and>
              playing c3 + looping c3 * int (alen ck) =
                playing c + looping c * int (alen ck) - bytes_mixed i (ev1 @ ev2)"
    if k: "0 \<le> looping c"
  proof -
    define K where "K = looping c * int (alen ck)"
    have K: "0 \<le> K" using k by (simp add: K_def)
    have KL: "looping c \<noteq> 0 \<longrightarrow> int (alen ck) \<le> K"
    proof
      assume "looping c \<noteq> 0"
      with k have "1 \<le> looping c" by simp
      then have "1 * int (alen ck) \<le> looping c * int (alen ck)"
        by (intro mult_right_mono) simp_all
      then show "int (alen ck) \<le> K" by (simp add: K_def)
    qed
    from pos l1 k have l2: "0 \<le> looping c2" by simp
    have b: "bytes_mixed i (ev1 @ ev2) = i2" using bts ev1 by simp
    have pot2: "playing c2 + looping c2 * int (alen ck) = playing c + K - i2 \<and>
                i2 = min len (playing c + K)"
    proof (cases "looping c1 \<noteq> 0 \<and> i1 < len")
      case True
      with pos l1 k have e: "playing c2 + looping c2 * int (alen ck) = K - (i2 - i1)"
        by (simp add: K_def)
      from True p1z p1 have i1p: "i1 = playing c" by simp
      have nn: "0 \<le> looping c2 * int (alen ck)" using l2 by simp
      have "i2 = min len (playing c + K)"
      proof (cases "i2 < len")
        case True
        with fin \<open>looping c1 \<noteq> 0 \<and> i1 < len\<close> have z: "playing c2 = 0" by simp
        from True ex have "looping c2 = 0" by simp
        with z e i1p have "i2 = playing c + K" by simp
        with True show ?thesis by simp
      next
        case False
        with bts have "i2 = len" by simp
        moreover from e p2 nn i1p have "i2 \<le> playing c + K" by linarith
        ultimately show ?thesis by simp
      qed
      with e i1p show ?thesis by simp
    next
      case False
      with idle have e: "c2 = c1" "i2 = i1" by simp_all
      have "playing c2 + looping c2 * int (alen ck) = playing c + K - i2"
        using e p1 l1 by (simp add: K_def)
      moreover have "i2 = min len (playing c + K)"
      proof (cases "looping c = 0")
        case True
        then have "K = 0" by (simp add: K_def)
        with e m len p show ?thesis by (auto simp: i1_def m_def)
      next
        case nz: False
        with False l1 have "\<not> i1 < len" by simp
        with i1 have "i1 = len" by simp
        moreover have "len \<le> playing c" using \<open>i1 = len\<close> m len by (auto simp: i1_def split: if_splits)
        ultimately show ?thesis using e K by simp
      qed
      ultimately show ?thesis by simp
    qed
    have pot3: "playing c3 + looping c3 * int (alen ck) = playing c2 + looping c2 * int (alen ck)"
      using l3 p3 l2 by (auto simp: left_diff_distrib)
    have "0 \<le> looping c3" using l3 l2 by auto
    moreover have "0 \<le> playing c3" using p3 p2 by auto
    moreover have "playing c3 = 0 \<longrightarrow> looping c3 = 0" using p3 l3 L by auto
    ultimately show ?thesis using pot2 pot3 b by (simp add: K_def)
  qed
  have dn: "looping c3 = 0 \<and> done_count i (ev1 @ ev2) = (if cb \<and> playing c \<le> len then 1 else 0)"
    if "looping c = 0"
  proof -
    from that l1 idle have "c2 = c1" by simp
    with that l1 l3 have "looping c3 = 0" by simp
    with that d1 ev2 show ?thesis by simp
  qed
  show ?thesis
    using res same3 ev1(1) ev2(1) inf finite dn
    by (intro exI [of _ c3] exI [of _ "ev1 @ ev2"]) simp
qed

lemma mix_samples_empty:
  "len \<le> 0 \<Longrightarrow> 0 < playing c \<Longrightarrow> mix_samples cb heap len i c = Inr (c, [])"
  by (simp add: mix_samples_def mix_playing_full mix_looping_stop)

lemma set_volume_fields [simp]:
  "chunk (set_volume v c) = chunk c" "playing (set_volume v c) = playing c"
  "looping (set_volume v c) = looping c" "fading (set_volume v c) = fading c"
  "fade_length (set_volume v c) = fade_length c" "expire (set_volume v c) = expire c"
  "paused (set_volume v c) = paused c"
  by (simp_all add: set_volume_def)

lemma expire_fade_quiet:
  "fading c = MIX_NO_FADING \<Longrightarrow> expire c = 0 \<Longrightarrow> expire_fade cb sdl_ticks i c = Inr (c, [])"
  by (simp add: expire_fade_def)

lemma expire_fade_total:
  assumes "chan_ok heap c"
  shows "\<exists>c1 ev1. expire_fade cb sdl_ticks i c = Inr (c1, ev1) \<and> chan_ok heap c1 \<and>
           events_of i ev1 \<and> bytes_mixed w ev1 = 0"
  using assms
  by (auto simp: expire_fade_def chan_ok_def chunk_of_def Let_def)

lemma mix_samples_total:
  assumes "chan_ok heap c"
  shows "\<exists>c' evs. mix_samples cb heap len i c = Inr (c', evs) \<and> chan_ok heap c' \<and>
           events_of i evs"
proof (cases "0 < playing c")
  case False
  then show ?thesis using assms by (simp add: mix_samples_idle)
next
  case True
  with assms obtain ck where ck: "chunk_of heap c = Some ck" "0 < alen ck"
    and sm: "alen ck < 2 ^ 31"
    by (auto simp: chan_ok_def split: option.splits)
  show ?thesis
  proof (cases "0 \<le> len")
    case True
    from mix_samples_run [OF ck \<open>0 < playing c\<close> True sm, of cb i]
    obtain c' evs where r: "mix_samples cb heap len i c = Inr (c', evs)"
      and o: "other_fields c' = other_fields c" and e: "events_of i evs" by blast
    have "chan_ok heap c'"
      using assms ck sm other_fields_eqD [OF o] by (simp add: chan_ok_def chunk_of_def)
    with r e show ?thesis by blast
  next
    case False
    then have "mix_samples cb heap len i c = Inr (c, [])"
      using \<open>0 < playing c\<close>
      by (simp add: mix_samples_def mix_playing_full mix_looping_stop)
    with assms show ?thesis by simp
  qed
qed

lemma mix_one_total:
  assumes "chan_ok heap c"
  shows "\<exists>c' evs. mix_one cb heap sdl_ticks len i c = Inr (c', evs) \<and> chan_ok heap c' \<and>
           events_of i evs"
proof (cases "paused c = 0")
  case False
  then show ?thesis using assms by (simp add: mix_one_def)
next
  case True
  from expire_fade_total [OF assms, of cb sdl_ticks i] obtain c1 ev1
    where 1: "expire_fade cb sdl_ticks i c = Inr (c1, ev1)" "chan_ok heap c1" "events_of i ev1"
    by blast
  from mix_samples_total [OF 1(2), of cb len i] obtain c2 ev2
    where 2: "mix_samples cb heap len i c1 = Inr (c2, ev2)" "chan_ok heap c2" "events_of i ev2"
    by blast
  show ?thesis using True 1 2 by (simp add: mix_one_def)
qed

lemma mix_one_quiet:
  "paused c = 0 \<Longrightarrow> fading c = MIX_NO_FADING \<Longrightarrow> expire c = 0 \<Longrightarrow>
   mix_one cb heap sdl_ticks len i c = mix_samples cb heap len i c"
  by (cases "mix_samples cb heap len i c") (auto simp: mix_one_def expire_fade_quiet)

text \<open>Events of other channels do not count for channel \<open>w\<close>.\<close>

lemma concat_events_below:
  assumes "\<forall>k<n. events_of (int k) (e k)" and "n \<le> w"
  shows "bytes_mixed (int w) (concat (map e [0..<n])) = 0 \<and>
         done_count (int w) (concat (map e [0..<n])) = 0"
  using assms
proof (induction n)
  case 0
  then show ?case by simp
next
  case (Suc n)
  then have "events_of (int n) (e n)" "int n \<noteq> int w" by simp_all
  from events_of_other [OF this] Suc show ?case by simp
qed

lemma concat_events_at:
  assumes "\<forall>k<n. events_of (int k) (e k)" and "w < n"
  shows "bytes_mixed (int w) (concat (map e [0..<n])) = bytes_mixed (int w) (e w) \<and>
         done_count (int w) (concat (map e [0..<n])) = done_count (int w) (e w)"
  using assms
proof (induction n)
  case 0
  then show ?case by simp
next
  case (Suc n)
  show ?case
  proof (cases "w = n")
    case True
    from Suc.prems have "\<forall>k<n. events_of (int k) (e k)" by simp
    from concat_events_below [OF this, of w] True show ?thesis by simp
  next
    case False
    with Suc.prems have "w < n" by simp
    moreover from Suc.prems have "\<forall>k<n. events_of (int k) (e k)" by simp
    ultimately have IH: "bytes_mixed (int w) (concat (map e [0..<n])) = bytes_mixed (int w) (e w) \<and>
         done_count (int w) (concat (map e [0..<n])) = done_count (int w) (e w)"
      using Suc.IH by blast
    from Suc.prems False have "events_of (int n) (e n)" "int n \<noteq> int w" by simp_all
    from events_of_other [OF this] IH show ?thesis by simp
  qed
qed

lemma mix_channels_step:
  assumes wf: "bank_wf s" and chs: "mix_channel s = Some chs" and w: "w < length chs"
  shows "\<exists>s' c' ev. mix_channels sdl_ticks len s = Inr s' \<and> bank_wf s' \<and> same_env s s' \<and>
           mix_one (channel_done_callback s) (chunks s) sdl_ticks len (int w) (chs ! w) =
             Inr (c', ev) \<and>
           the_channels s' ! w = c' \<and> length (the_channels s') = length chs \<and>
           bytes_mixed (int w) (trace s') = bytes_mixed (int w) (trace s) + bytes_mixed (int w) ev \<and>
           done_count (int w) (trace s') = done_count (int w) (trace s) + done_count (int w) ev"
proof -
  let ?f = "\<lambda>k. mix_one (channel_done_callback s) (chunks s) sdl_ticks len (int k)"
  define g where "g k = fst (projr (?f k (chs ! k)))" for k
  define e where "e k = snd (projr (?f k (chs ! k)))" for k
  from wf chs have n: "num_channels s = int (length chs)"
    and ok: "\<forall>k<length chs. chan_ok (chunks s) (chs ! k)"
    by (auto simp: bank_wf_def bank_ok_def the_channels_def list_all_length)
  have tot: "?f k (chs ! k) = Inr (g k, e k) \<and> chan_ok (chunks s) (g k) \<and> events_of (int k) (e k)"
    if "k < length chs" for k
  proof -
    from ok that have "chan_ok (chunks s) (chs ! k)" by simp
    from mix_one_total [OF this, of "channel_done_callback s" sdl_ticks len "int k"]
    show ?thesis by (auto simp: g_def e_def)
  qed
  have "\<exists>chs'. for_channels (mix_channel_i sdl_ticks len) (int 0) (int (length chs)) s =
             Inr (s\<lparr>mix_channel := Some chs',
                    trace := trace s @ concat (map e [0..<length chs])\<rparr>) \<and>
           length chs' = length chs \<and>
           (\<forall>j<length chs. chs' ! j = (if 0 \<le> j \<and> j < length chs then g j else chs ! j))"
  proof (rule for_channels_update [where f = ?f])
    show "mix_channel s = Some chs" by fact
    show "length chs \<le> length chs" by simp
    show "mix_channel_i sdl_ticks len (int k) s' = update_channel (int k) (?f k) s'"
      if "same_env s s'" for k s'
      using that by (simp add: mix_channel_i_def same_env_def)
    show "?f k (chs ! k) = Inr (g k, e k)" if "k < length chs" for k
      using tot [OF that] by simp
  qed
  then obtain chs' where
    r: "mix_channels sdl_ticks len s =
          Inr (s\<lparr>mix_channel := Some chs', trace := trace s @ concat (map e [0..<length chs])\<rparr>)"
    and len': "length chs' = length chs"
    and nth: "\<forall>j<length chs. chs' ! j = g j"
    using n by (auto simp: mix_channels_def)
  let ?s' = "s\<lparr>mix_channel := Some chs', trace := trace s @ concat (map e [0..<length chs])\<rparr>"
  have ev: "\<forall>k<length chs. events_of (int k) (e k)" using tot by simp
  have wf': "bank_wf ?s'"
    using n len' nth tot
    by (simp add: bank_wf_def bank_ok_def the_channels_def list_all_length)
  have env: "same_env s ?s'" by (simp add: same_env_def)
  show ?thesis
    using r wf' env tot [OF w] nth w len' concat_events_at [OF ev w]
    by (intro exI [of _ ?s'] exI [of _ "g w"] exI [of _ "e w"]) (simp add: the_channels_def)
qed

lemma quiet_other_fields: "other_fields c' = other_fields c \<Longrightarrow> quiet c' = quiet c"
  using other_fields_eqD [of c' c] by (simp add: quiet_def)

lemma sum_snd_nonneg: "\<forall>m \<in> set ms. 0 \<le> snd m \<Longrightarrow> 0 \<le> sum_list (map snd ms)" for ms :: "('a \<times> int) list"
  by (induction ms) auto

lemma mix_run_finite:
  assumes "bank_wf s" and "mix_channel s = Some chs" and "w < length chs"
    and "quiet (chs ! w)" and "chunk_of (chunks s) (chs ! w) = Some ck" and "0 < alen ck"
    and "0 \<le> looping (chs ! w)" and "0 \<le> playing (chs ! w)"
    and "playing (chs ! w) = 0 \<longrightarrow> looping (chs ! w) = 0"
    and "\<forall>m \<in> set ms. 0 \<le> snd m" and "alen ck < 2 ^ 31"
  shows "\<exists>s' c'. mix_many ms s = Inr s' \<and> bank_wf s' \<and> same_env s s' \<and>
           length (the_channels s') = length chs \<and> c' = the_channels s' ! w \<and>
           bytes_mixed (int w) (trace s') =
             bytes_mixed (int w) (trace s) +
             min (sum_list (map snd ms)) (playing (chs ! w) + looping (chs ! w) * int (alen ck)) \<and>
           playing c' + looping c' * int (alen ck) =
             playing (chs ! w) + looping (chs ! w) * int (alen ck) -
             min (sum_list (map snd ms)) (playing (chs ! w) + looping (chs ! w) * int (alen ck)) \<and>
           0 \<le> playing c' \<and> 0 \<le> looping c' \<and> (playing c' = 0 \<longrightarrow> looping c' = 0) \<and>
           (looping (chs ! w) = 0 \<longrightarrow>
              done_count (int w) (trace s') =
                done_count (int w) (trace s) +
                (if channel_done_callback s \<and> 0 < playing (chs ! w) \<and>
                    playing (chs ! w) \<le> sum_list (map snd ms) then 1 else 0))"
  using assms
proof (induction ms arbitrary: s chs)
  case Nil
  then have "0 \<le> playing (chs ! w) + looping (chs ! w) * int (alen ck)" by simp
  with Nil show ?case
    by (intro exI [of _ s] exI [of _ "chs ! w"])
       (simp add: same_env_refl the_channels_def)
next
  case (Cons m ms)
  obtain t l where m: "m = (t, l)" by (cases m)
  let ?c = "chs ! w"
  let ?L = "int (alen ck)"
  let ?P = "playing ?c + looping ?c * ?L"
  let ?cb = "channel_done_callback s"
  from Cons.prems(10) m have l: "0 \<le> l" and rest: "\<forall>m \<in> set ms. 0 \<le> snd m" by simp_all
  have S: "0 \<le> sum_list (map snd ms)" using rest by (rule sum_snd_nonneg)
  have P: "0 \<le> ?P" using Cons.prems(7,8) by simp
  from mix_channels_step [OF Cons.prems(1,2,3), of t l] obtain s1 c1 ev where
    step: "mix_channels t l s = Inr s1" and wf1: "bank_wf s1" and env1: "same_env s s1"
    and one: "mix_one ?cb (chunks s) t l (int w) ?c = Inr (c1, ev)"
    and c1: "the_channels s1 ! w = c1" and len1: "length (the_channels s1) = length chs"
    and b1: "bytes_mixed (int w) (trace s1) = bytes_mixed (int w) (trace s) + bytes_mixed (int w) ev"
    and d1: "done_count (int w) (trace s1) = done_count (int w) (trace s) + done_count (int w) ev"
    by blast
  from Cons.prems(4) have sam: "mix_samples ?cb (chunks s) l (int w) ?c = Inr (c1, ev)"
    using one by (simp add: quiet_def mix_one_quiet)
  have facts: "other_fields c1 = other_fields ?c \<and>
      bytes_mixed (int w) ev = min l ?P \<and>
      playing c1 + looping c1 * ?L = ?P - min l ?P \<and>
      0 \<le> playing c1 \<and> 0 \<le> looping c1 \<and> (playing c1 = 0 \<longrightarrow> looping c1 = 0) \<and>
      (looping ?c = 0 \<longrightarrow> looping c1 = 0 \<and>
         done_count (int w) ev = (if ?cb \<and> 0 < playing ?c \<and> playing ?c \<le> l then 1 else 0))"
  proof (cases "0 < playing ?c")
    case False
    with Cons.prems(8,9) have z: "playing ?c = 0" "looping ?c = 0" by simp_all
    with sam have "c1 = ?c" "ev = []" by (simp_all add: mix_samples_idle)
    with z l show ?thesis by simp
  next
    case True
    from mix_samples_run [OF Cons.prems(5,6) True l Cons.prems(11), of ?cb "int w"]
    obtain c' evs where r: "mix_samples ?cb (chunks s) l (int w) ?c = Inr (c', evs)"
      and o: "other_fields c' = other_fields ?c"
      and f: "0 \<le> looping ?c \<longrightarrow>
              0 \<le> looping c' \<and> 0 \<le> playing c' \<and> (playing c' = 0 \<longrightarrow> looping c' = 0) \<and>
              bytes_mixed (int w) evs = min l ?P \<and>
              playing c' + looping c' * ?L = ?P - bytes_mixed (int w) evs"
      and d: "looping ?c = 0 \<longrightarrow> looping c' = 0 \<and>
              done_count (int w) evs = (if ?cb \<and> playing ?c \<le> l then 1 else 0)"
      by blast
    from r sam have e: "c' = c1" "evs = ev" by simp_all
    from f Cons.prems(7) have f': "0 \<le> looping c'" "0 \<le> playing c'"
      "playing c' = 0 \<longrightarrow> looping c' = 0" "bytes_mixed (int w) evs = min l ?P"
      "playing c' + looping c' * ?L = ?P - bytes_mixed (int w) evs" by simp_all
    show ?thesis
      unfolding e [symmetric] using o f' d True by simp
  qed
  from wf1 obtain chs1 where chs1: "mix_channel s1 = Some chs1"
    by (auto simp: bank_wf_def bank_ok_def split: option.splits)
  with c1 len1 have c1': "chs1 ! w = c1" and len1': "length chs1 = length chs"
    by (simp_all add: the_channels_def)
  have heap1: "chunks s1 = chunks s" and cb1: "channel_done_callback s1 = ?cb"
    using env1 by (simp_all add: same_env_def)
  have q1: "quiet (chs1 ! w)"
    using quiet_other_fields [of c1 ?c] facts Cons.prems(4) c1' by simp
  have ck1: "chunk_of (chunks s1) (chs1 ! w) = Some ck"
    using facts Cons.prems(5) heap1 c1' other_fields_eqD(1) [of c1 ?c] by (simp add: chunk_of_def)
  have w1: "w < length chs1" using len1' Cons.prems(3) by simp
  have i7: "0 \<le> looping (chs1 ! w)" and i8: "0 \<le> playing (chs1 ! w)"
    and i9: "playing (chs1 ! w) = 0 \<longrightarrow> looping (chs1 ! w) = 0"
    using facts c1' by simp_all
  from Cons.IH [OF wf1 chs1 w1 q1 ck1 Cons.prems(6) i7 i8 i9 rest Cons.prems(11)]
  obtain s' c' where
    run: "mix_many ms s1 = Inr s'" and wf': "bank_wf s'" and env': "same_env s1 s'"
    and len': "length (the_channels s') = length chs1" and c': "c' = the_channels s' ! w"
    and b': "bytes_mixed (int w) (trace s') =
             bytes_mixed (int w) (trace s1) +
             min (sum_list (map snd ms)) (playing (chs1 ! w) + looping (chs1 ! w) * ?L)"
    and p': "playing c' + looping c' * ?L =
             playing (chs1 ! w) + looping (chs1 ! w) * ?L -
             min (sum_list (map snd ms)) (playing (chs1 ! w) + looping (chs1 ! w) * ?L)"
    and nn: "0 \<le> playing c'" "0 \<le> looping c'" "playing c' = 0 \<longrightarrow> looping c' = 0"
    and d': "looping (chs1 ! w) = 0 \<longrightarrow>
              done_count (int w) (trace s') =
                done_count (int w) (trace s1) +
                (if channel_done_callback s1 \<and> 0 < playing (chs1 ! w) \<and>
                    playing (chs1 ! w) \<le> sum_list (map snd ms) then 1 else 0)"
    by blast
  have env: "same_env s s'" using env1 env' by (simp add: same_env_def)
  have mm: "mix_many (m # ms) s = Inr s'" using m step run by simp
  have sum: "sum_list (map snd (m # ms)) = l + sum_list (map snd ms)" using m by simp
  have pot1: "playing c1 + looping c1 * ?L = ?P - min l ?P" using facts by simp
  have bytes: "bytes_mixed (int w) (trace s') =
      bytes_mixed (int w) (trace s) + min (sum_list (map snd (m # ms))) ?P"
    using b' b1 facts pot1 l S P unfolding sum c1' by (simp add: min_def)
  have pot: "playing c' + looping c' * ?L = ?P - min (sum_list (map snd (m # ms))) ?P"
    using p' pot1 l S P unfolding sum c1' by (simp add: min_def)
  have dn: "done_count (int w) (trace s') =
                done_count (int w) (trace s) +
                (if ?cb \<and> 0 < playing ?c \<and> playing ?c \<le> sum_list (map snd (m # ms))
                 then 1 else 0)"
    if z: "looping ?c = 0"
  proof -
    from z facts have l1: "looping c1 = 0"
      and de: "done_count (int w) ev = (if ?cb \<and> 0 < playing ?c \<and> playing ?c \<le> l then 1 else 0)"
      by simp_all
    from z pot1 l1 have pc1: "playing c1 = playing ?c - min l (playing ?c)" by simp
    from d' l1 cb1 c1' have "done_count (int w) (trace s') =
                done_count (int w) (trace s1) +
                (if ?cb \<and> 0 < playing c1 \<and> playing c1 \<le> sum_list (map snd ms) then 1 else 0)"
      by simp
    with d1 de pc1 l S show ?thesis unfolding sum by (auto simp: min_def)
  qed
  show ?case
    using mm wf' env len' len1' c' bytes pot nn dn
    by (intro exI [of _ s'] exI [of _ c']) simp
qed

lemma active_iff_left:
  assumes "0 \<le> playing c" and "0 \<le> looping c" and "playing c = 0 \<longrightarrow> looping c = 0"
    and "0 < (L::int)"
  shows "is_active c \<longleftrightarrow> 0 < playing c + looping c * L"
proof -
  have nn: "0 \<le> looping c * L" using assms(2,4) by simp
  show ?thesis
  proof (cases "playing c = 0")
    case True
    with assms(3) show ?thesis by (simp add: is_active_def)
  next
    case False
    with assms(1) have "0 < playing c" by simp
    with nn show ?thesis by (simp add: is_active_def add_pos_nonneg)
  qed
qed

lemma mix_run_forever:
  assumes "bank_wf s" and "mix_channel s = Some chs" and "w < length chs"
    and "quiet (chs ! w)" and "chunk_of (chunks s) (chs ! w) = Some ck" and "0 < alen ck"
    and "looping (chs ! w) < 0" and "0 < playing (chs ! w)" and "alen ck < 2 ^ 31"
  shows "\<exists>s'. mix_many ms s = Inr s' \<and> bank_wf s' \<and> same_env s s' \<and>
           length (the_channels s') = length chs \<and>
           0 < playing (the_channels s' ! w) \<and>
           looping (the_channels s' ! w) = looping (chs ! w)"
  using assms
proof (induction ms arbitrary: s chs)
  case Nil
  then show ?case
    by (intro exI [of _ s]) (simp add: same_env_refl the_channels_def)
next
  case (Cons m ms)
  obtain t l where m: "m = (t, l)" by (cases m)
  let ?c = "chs ! w"
  let ?cb = "channel_done_callback s"
  from mix_channels_step [OF Cons.prems(1,2,3), of t l] obtain s1 c1 ev where
    step: "mix_channels t l s = Inr s1" and wf1: "bank_wf s1" and env1: "same_env s s1"
    and one: "mix_one ?cb (chunks s) t l (int w) ?c = Inr (c1, ev)"
    and c1: "the_channels s1 ! w = c1" and len1: "length (the_channels s1) = length chs"
    by blast
  from Cons.prems(4) have sam: "mix_samples ?cb (chunks s) l (int w) ?c = Inr (c1, ev)"
    using one by (simp add: quiet_def mix_one_quiet)
  have facts: "other_fields c1 = other_fields ?c \<and> looping c1 = looping ?c \<and> 0 < playing c1"
  proof (cases "0 \<le> l")
    case False
    with sam Cons.prems(8) have "c1 = ?c" by (simp add: mix_samples_empty)
    with Cons.prems(8) show ?thesis by simp
  next
    case True
    from mix_samples_run [OF Cons.prems(5,6,8) True Cons.prems(9), of ?cb "int w"]
    obtain c' evs where r: "mix_samples ?cb (chunks s) l (int w) ?c = Inr (c', evs)"
      and o: "other_fields c' = other_fields ?c"
      and f: "looping ?c < 0 \<longrightarrow> looping c' = looping ?c \<and> 0 < playing c' \<and>
                bytes_mixed (int w) evs = l"
      by blast
    from r sam have e: "c' = c1" by simp
    show ?thesis unfolding e [symmetric] using o f Cons.prems(7) by simp
  qed
  from wf1 obtain chs1 where chs1: "mix_channel s1 = Some chs1"
    by (auto simp: bank_wf_def bank_ok_def split: option.splits)
  with c1 len1 have c1': "chs1 ! w = c1" and len1': "length chs1 = length chs"
    by (simp_all add: the_channels_def)
  have heap1: "chunks s1 = chunks s" using env1 by (simp add: same_env_def)
  have q1: "quiet (chs1 ! w)"
    using quiet_other_fields [of c1 ?c] facts Cons.prems(4) c1' by simp
  have ck1: "chunk_of (chunks s1) (chs1 ! w) = Some ck"
    using facts Cons.prems(5) heap1 c1' other_fields_eqD(1) [of c1 ?c] by (simp add: chunk_of_def)
  have w1: "w < length chs1" using len1' Cons.prems(3) by simp
  have i7: "looping (chs1 ! w) < 0" and i8: "0 < playing (chs1 ! w)"
    using facts c1' Cons.prems(7) by simp_all
  from Cons.IH [OF wf1 chs1 w1 q1 ck1 Cons.prems(6) i7 i8 Cons.prems(9)]
  obtain s' where
    run: "mix_many ms s1 = Inr s'" and wf': "bank_wf s'" and env': "same_env s1 s'"
    and len': "length (the_channels s') = length chs1"
    and p': "0 < playing (the_channels s' ! w)"
    and l': "looping (the_channels s' ! w) = looping (chs1 ! w)"
    by blast
  have env: "same_env s s'" using env1 env' by (simp add: same_env_def)
  have mm: "mix_many (m # ms) s = Inr s'" using m step run by simp
  show ?case
    using mm wf' env len' len1' p' l' facts c1'
    by (intro exI [of _ s']) simp
qed

lemma chan_ok_heap_update:
  assumes "chan_ok heap c" and "0 < alen ck'" and "alen ck' < 2 ^ 31"
  shows "chan_ok (heap(p \<mapsto> ck')) c"
  using assms by (auto simp: chan_ok_def chunk_of_def split: option.splits)

lemma play_channel_ok:
  assumes wf: "bank_wf s" and chs: "mix_channel s = Some chs"
    and w: "0 \<le> w" "w < int (length chs)"
    and ck: "chunks s p = Some ck" and fw: "frame_width s \<noteq> 0"
    and L: "0 < truncate_alen (frame_width s) (alen ck)"
    and ck': "ck' = ck\<lparr>alen := truncate_alen (frame_width s) (alen ck)\<rparr>"
    and s1: "s1 = s\<lparr>chunks := (chunks s)(p \<mapsto> ck'),
                    mix_channel := Some (chs[nat w := start_channel t ck' p loops ticks (chs ! nat w)]),
                    trace := trace s @ (if is_active (chs ! nat w)
                                        then Mix_channel_done_playing (channel_done_callback s) w
                                        else [])\<rparr>"
  shows "Mix_PlayChannelTimed t w (Some p) loops ticks s = Inr (w, s1)"
proof -
  from wf chs have n: "num_channels s = int (length chs)"
    by (auto simp: bank_wf_def bank_ok_def)
  show "Mix_PlayChannelTimed t w (Some p) loops ticks s = Inr (w, s1)"
    using chs w ck fw L n
    by (simp add: Mix_PlayChannelTimed_def checkchunkintegral_def Let_def Mix_Playing_def
        channel_at_def update_channel_def ck' s1)
qed

text \<open>When the truncated length is below \<open>2 ^ 31\<close>, the bank is well formed after the play.\<close>

lemma play_channel_wf:
  assumes wf: "bank_wf s" and chs: "mix_channel s = Some chs"
    and L: "0 < truncate_alen (frame_width s) (alen ck)"
    and sm: "truncate_alen (frame_width s) (alen ck) < 2 ^ 31"
    and ck': "ck' = ck\<lparr>alen := truncate_alen (frame_width s) (alen ck)\<rparr>"
    and s1: "s1 = s\<lparr>chunks := (chunks s)(p \<mapsto> ck'),
                    mix_channel := Some (chs[nat w := start_channel t ck' p loops ticks (chs ! nat w)]),
                    trace := tr\<rparr>"
  shows "bank_wf s1"
proof -
  from wf chs have n: "num_channels s = int (length chs)"
    and ok: "\<forall>k<length chs. chan_ok (chunks s) (chs ! k)"
    by (auto simp: bank_wf_def bank_ok_def the_channels_def list_all_length)
  have a: "0 < alen ck'" "alen ck' < 2 ^ 31" using L sm by (simp_all add: ck')
  have new: "chan_ok ((chunks s)(p \<mapsto> ck')) (start_channel t ck' p loops ticks c)" for c
    using a by (simp add: chan_ok_def start_channel_def chunk_of_def)
  have "chan_ok ((chunks s)(p \<mapsto> ck'))
          ((chs[nat w := start_channel t ck' p loops ticks (chs ! nat w)]) ! k)"
    if "k < length chs" for k
    using that ok new chan_ok_heap_update [OF _ a] by (cases "k = nat w") simp_all
  then show "bank_wf s1"
    using n by (simp add: s1 bank_wf_def bank_ok_def the_channels_def list_all_length)
qed

section \<open>One-shot and looping playback\<close>

text \<open>The definitions that evaluate a play or a mixing callback on a concrete state.\<close>

lemmas ex_eval =
  mix_channels_def for_channels.simps mix_channel_i_def update_channel_def mix_one_def
  expire_fade_def set_volume_def mix_samples_def mix_playing.simps mix_looping.simps chunk_of_def
  alen32_def
  Mix_channel_done_playing_def Mix_HaltChannel_def Mix_HaltChannel_one_def halt_channel_def
  ex_mixer1_def ex_mixer_def ex_fading_def ex_playing_def ex_channel_def ex_chunk_def
  SDL_MIX_MAXVOLUME_def MIX_MAX_VOLUME_def c_div_def Let_def

lemmas play_eval =
  Mix_PlayChannelTimed_def checkchunkintegral_def truncate_alen_eq frame_width_def
  Mix_Playing_def channel_at_def is_active_def start_channel_def the_channels_def
  bytes_mixed_def done_count_def

lemma started_channel:
  assumes "ticks \<le> 0"
  shows "quiet (start_channel t ck' p loops ticks c)"
    and "chunk_of (heap(p \<mapsto> ck')) (start_channel t ck' p loops ticks c) = Some ck'"
    and "looping (start_channel t ck' p loops ticks c) = loops"
    and "playing (start_channel t ck' p loops ticks c) = sint (alen32 ck')"
  using assms by (simp_all add: quiet_def start_channel_def chunk_of_def)

lemma Mix_Playing_one:
  assumes "bank_wf s" and "0 \<le> w" and "w < int (length (the_channels s))"
  shows "Mix_Playing w s = Inr (if is_active (the_channels s ! nat w) then 1 else 0)"
  using assms
  by (auto simp: Mix_Playing_def channel_at_def bank_wf_def bank_ok_def the_channels_def
      split: option.splits)

text \<open>
  Claim C1, as stated, fails for a chunk of \<open>2 ^ 31\<close> bytes or more: the length is a
  \<^verbatim>\<open>uint32_t\<close> and \<^verbatim>\<open>playing\<close> is an \<^verbatim>\<open>int\<close>. Here the frame-truncated length is
  \<open>L = 2 ^ 31\<close>; the play on the idle channel 0 succeeds and leaves \<open>playing = - (2 ^ 31)\<close>,
  \<^verbatim>\<open>Mix_Playing\<close> returns 0 at once, and two mixing callbacks whose buffers total \<open>L\<close>
  mix nothing and never call the registered callback.
\<close>

theorem huge_chunk_never_notifies:
  "channel_done_callback ex_huge \<and> Mix_Playing 0 ex_huge = Inr 0 \<and>
   chunk_len ex_huge 1 = Some 2147483648 \<and>
   truncate_alen (frame_width ex_huge) 2147483648 = 2147483648 \<and>
   (case Mix_PlayChannelTimed 5 0 (Some 1) 0 0 ex_huge of
      Inl e \<Rightarrow> False
    | Inr (r, s1) \<Rightarrow>
        r = 0 \<and> playing (the_channels s1 ! 0) = - 2147483648 \<and> Mix_Playing 0 s1 = Inr 0 \<and>
        (case mix_many [(10, 1073741824), (20, 1073741824)] s1 of
           Inl e \<Rightarrow> False
         | Inr s2 \<Rightarrow> trace s2 = [] \<and> done_count 0 (trace s2) = 0))"
  by (simp add: ex_huge_def chunk_len_def play_eval ex_eval)

text \<open>
  Claim C1, amended. In a well-formed bank with a registered callback, a chunk whose
  frame-truncated length is \<open>L\<close> with \<open>0 < L < 2 ^ 31\<close> is played with loop count 0 and no
  tick limit on a channel \<open>w\<close> that
  is not active, and the mixing callback then runs with buffers of non-negative lengths
  that total exactly \<open>L\<close>. The play succeeds on \<open>w\<close>, every callback succeeds, and after
  the first \<open>n\<close> callbacks the channel-finished callback has been called for \<open>w\<close> once if
  these \<open>n\<close> buffers already total \<open>L\<close> and not at all otherwise: it is called exactly
  once, in the callback that consumes the final byte. \<^verbatim>\<open>Mix_Playing\<close> on \<open>w\<close> returns 1
  before that callback and 0 from it on.
\<close>

theorem play_once_notifies_once:
  assumes "bank_wf s" and "mix_channel s = Some chs" and "0 \<le> w" and "w < num_channels s"
    and "\<not> is_active (chs ! nat w)" and "channel_done_callback s"
    and "chunks s p = Some ck" and "frame_width s \<noteq> 0"
    and "L = int (truncate_alen (frame_width s) (alen ck))" and "0 < L"
    and "ticks \<le> 0"
    and "\<forall>m \<in> set ms. 0 \<le> snd m" and "sum_list (map snd ms) = L"
    and "L < 2 ^ 31"
  shows "\<exists>s1. Mix_PlayChannelTimed t w (Some p) 0 ticks s = Inr (w, s1) \<and>
           (\<forall>n \<le> length ms. \<exists>s'. mix_many (take n ms) s1 = Inr s' \<and>
              done_count w (trace s') =
                done_count w (trace s) +
                (if L \<le> sum_list (map snd (take n ms)) then 1 else 0) \<and>
              Mix_Playing w s' = Inr (if L \<le> sum_list (map snd (take n ms)) then 0 else 1))"
proof -
  define ck' where "ck' = ck\<lparr>alen := truncate_alen (frame_width s) (alen ck)\<rparr>"
  define c0 where "c0 = start_channel t ck' p 0 ticks (chs ! nat w)"
  define chs1 where "chs1 = chs[nat w := c0]"
  define s1 where "s1 = s\<lparr>chunks := (chunks s)(p \<mapsto> ck'),
                    mix_channel := Some (chs[nat w := start_channel t ck' p 0 ticks (chs ! nat w)]),
                    trace := trace s @ (if is_active (chs ! nat w)
                                        then Mix_channel_done_playing (channel_done_callback s) w
                                        else [])\<rparr>"
  from assms(1,2) have n: "num_channels s = int (length chs)"
    by (simp add: bank_wf_def bank_ok_def)
  with assms(4) have wl: "w < int (length chs)" by simp
  have Lp: "0 < truncate_alen (frame_width s) (alen ck)" using assms(9,10) by simp
  have Ls: "truncate_alen (frame_width s) (alen ck) < 2 ^ 31" using assms(9,14) by simp
  have play: "Mix_PlayChannelTimed t w (Some p) 0 ticks s = Inr (w, s1)"
    using play_channel_ok [OF assms(1,2,3) wl assms(7,8) Lp ck'_def s1_def] .
  have wf1: "bank_wf s1"
    using play_channel_wf [OF assms(1,2) Lp Ls ck'_def s1_def] .
  have m1: "mix_channel s1 = Some chs1" by (simp add: s1_def chs1_def c0_def)
  have w1: "nat w < length chs1" using wl assms(3) by (simp add: chs1_def)
  have cw: "chs1 ! nat w = c0" using wl assms(3) by (simp add: chs1_def)
  have tr1: "trace s1 = trace s" using assms(5) by (simp add: s1_def)
  have cb1: "channel_done_callback s1" using assms(6) by (simp add: s1_def)
  have aL: "int (alen ck') = L" using assms(9) by (simp add: ck'_def)
  have a1: "alen ck' < 2 ^ 31" using Ls by (simp add: ck'_def)
  have q: "quiet (chs1 ! nat w)"
    and ch: "chunk_of (chunks s1) (chs1 ! nat w) = Some ck'"
    and lo: "looping (chs1 ! nat w) = 0" and pl: "playing (chs1 ! nat w) = L"
    unfolding cw c0_def using started_channel [OF assms(11)] aL alen32_small [OF a1]
    by (simp_all add: s1_def)
  have a0: "0 < alen ck'" using aL assms(10) by simp
  have "\<exists>s'. mix_many (take n ms) s1 = Inr s' \<and>
              done_count w (trace s') =
                done_count w (trace s) +
                (if L \<le> sum_list (map snd (take n ms)) then 1 else 0) \<and>
              Mix_Playing w s' = Inr (if L \<le> sum_list (map snd (take n ms)) then 0 else 1)"
    for n
  proof -
    let ?S = "sum_list (map snd (take n ms))"
    have nonneg: "\<forall>m \<in> set (take n ms). 0 \<le> snd m"
      using assms(12) by (meson in_set_takeD)
    have i7: "0 \<le> looping (chs1 ! nat w)" and i8: "0 \<le> playing (chs1 ! nat w)"
      and i9: "playing (chs1 ! nat w) = 0 \<longrightarrow> looping (chs1 ! nat w) = 0"
      using lo pl assms(10) by simp_all
    from mix_run_finite [OF wf1 m1 w1 q ch a0 i7 i8 i9 nonneg a1]
    obtain s' c' where run: "mix_many (take n ms) s1 = Inr s'" and wf': "bank_wf s'"
      and len': "length (the_channels s') = length chs1" and c': "c' = the_channels s' ! nat w"
      and pot: "playing c' + looping c' * int (alen ck') =
             playing (chs1 ! nat w) + looping (chs1 ! nat w) * int (alen ck') -
             min ?S (playing (chs1 ! nat w) + looping (chs1 ! nat w) * int (alen ck'))"
      and nn: "0 \<le> playing c'" "0 \<le> looping c'" "playing c' = 0 \<longrightarrow> looping c' = 0"
      and dn: "looping (chs1 ! nat w) = 0 \<longrightarrow>
              done_count (int (nat w)) (trace s') =
                done_count (int (nat w)) (trace s1) +
                (if channel_done_callback s1 \<and> 0 < playing (chs1 ! nat w) \<and>
                    playing (chs1 ! nat w) \<le> ?S then 1 else 0)"
      by blast
    have "done_count w (trace s') = done_count w (trace s) + (if L \<le> ?S then 1 else 0)"
      using dn lo pl cb1 tr1 assms(3,10) by simp
    moreover have "is_active c' \<longleftrightarrow> \<not> L \<le> ?S"
    proof -
      have "is_active c' \<longleftrightarrow> 0 < L - min ?S L"
        using active_iff_left [OF nn assms(10)] pot lo pl aL by simp
      then show ?thesis by (auto simp: min_def)
    qed
    moreover have "Mix_Playing w s' = Inr (if is_active c' then 1 else 0)"
      unfolding c' using wf' assms(3) len' w1 by (intro Mix_Playing_one) simp_all
    ultimately show ?thesis using run by simp
  qed
  with play show ?thesis by blast
qed

text \<open>
  Claim C2, as stated, fails for a chunk of \<open>2 ^ 31\<close> bytes or more, for the same reason.
  With \<open>L = 2 ^ 31\<close> and the loop count \<open>K = 1\<close> the play leaves \<open>playing\<close> negative and
  \<open>looping = 1\<close>; four mixing callbacks whose buffers total \<open>L * (K + 1)\<close> mix no byte of
  the chunk, and the channel is still active after them.
\<close>

theorem huge_chunk_loop_mixes_nothing:
  "chunk_len ex_huge 1 = Some 2147483648 \<and>
   truncate_alen (frame_width ex_huge) 2147483648 = 2147483648 \<and>
   (case Mix_PlayChannelTimed 5 0 (Some 1) 1 0 ex_huge of
      Inl e \<Rightarrow> False
    | Inr (r, s1) \<Rightarrow>
        r = 0 \<and>
        (case mix_many [(10, 1073741824), (20, 1073741824), (30, 1073741824), (40, 1073741824)] s1 of
           Inl e \<Rightarrow> False
         | Inr s2 \<Rightarrow> bytes_mixed 0 (trace s2) = 0 \<and> is_active (the_channels s2 ! 0) \<and>
             Mix_Playing 0 s2 = Inr 1))"
  by (simp add: ex_huge_def chunk_len_def play_eval ex_eval)

text \<open>
  Claim C2, amended. In a well-formed bank a chunk whose frame-truncated length is \<open>L\<close>
  with \<open>0 < L < 2 ^ 31\<close> is
  played on channel \<open>w\<close> with no tick limit, and any run of mixing callbacks follows (no
  halt, pause, fade or expiration between them). With a loop count \<open>K \<ge> 1\<close> and buffers
  of non-negative lengths, the run has mixed \<open>min (total length) (L * (K + 1))\<close> bytes of
  the chunk for \<open>w\<close>, and the channel is active exactly as long as the total is below
  \<open>L * (K + 1)\<close>: it becomes inactive when exactly \<open>L * (K + 1)\<close> bytes have been mixed.
  With the loop count -1 the channel is active after every run.
\<close>

theorem looping_play_byte_count:
  assumes "bank_wf s" and "mix_channel s = Some chs" and "0 \<le> w" and "w < num_channels s"
    and "chunks s p = Some ck" and "frame_width s \<noteq> 0"
    and "L = int (truncate_alen (frame_width s) (alen ck))" and "0 < L"
    and "ticks \<le> 0" and "L < 2 ^ 31"
  shows "(1 \<le> K \<and> (\<forall>m \<in> set ms. 0 \<le> snd m) \<longrightarrow>
           (\<exists>s1 s2. Mix_PlayChannelTimed t w (Some p) K ticks s = Inr (w, s1) \<and>
              mix_many ms s1 = Inr s2 \<and>
              bytes_mixed w (trace s2) =
                bytes_mixed w (trace s1) + min (sum_list (map snd ms)) (L * (K + 1)) \<and>
              (is_active (the_channels s2 ! nat w) \<longleftrightarrow>
                 sum_list (map snd ms) < L * (K + 1)))) \<and>
         (\<exists>s1 s2. Mix_PlayChannelTimed t w (Some p) (-1) ticks s = Inr (w, s1) \<and>
              mix_many ms s1 = Inr s2 \<and>
              is_active (the_channels s2 ! nat w) \<and> Mix_Playing w s2 = Inr 1)"
proof -
  define ck' where "ck' = ck\<lparr>alen := truncate_alen (frame_width s) (alen ck)\<rparr>"
  from assms(1,2) have n: "num_channels s = int (length chs)"
    by (simp add: bank_wf_def bank_ok_def)
  with assms(4) have wl: "w < int (length chs)" by simp
  have Lp: "0 < truncate_alen (frame_width s) (alen ck)" using assms(7,8) by simp
  have Ls: "truncate_alen (frame_width s) (alen ck) < 2 ^ 31" using assms(7,10) by simp
  have aL: "int (alen ck') = L" using assms(7) by (simp add: ck'_def)
  have a0: "0 < alen ck'" using aL assms(8) by simp
  have a1: "alen ck' < 2 ^ 31" using Ls by (simp add: ck'_def)
  have start: "\<exists>s1 chs1. Mix_PlayChannelTimed t w (Some p) loops ticks s = Inr (w, s1) \<and>
      bank_wf s1 \<and> mix_channel s1 = Some chs1 \<and> nat w < length chs1 \<and>
      quiet (chs1 ! nat w) \<and> chunk_of (chunks s1) (chs1 ! nat w) = Some ck' \<and>
      looping (chs1 ! nat w) = loops \<and> playing (chs1 ! nat w) = L" for loops
  proof -
    define c0 where "c0 = start_channel t ck' p loops ticks (chs ! nat w)"
    define chs1 where "chs1 = chs[nat w := c0]"
    define s1 where "s1 = s\<lparr>chunks := (chunks s)(p \<mapsto> ck'),
                    mix_channel := Some (chs[nat w := start_channel t ck' p loops ticks (chs ! nat w)]),
                    trace := trace s @ (if is_active (chs ! nat w)
                                        then Mix_channel_done_playing (channel_done_callback s) w
                                        else [])\<rparr>"
    have play: "Mix_PlayChannelTimed t w (Some p) loops ticks s = Inr (w, s1)"
      using play_channel_ok [OF assms(1,2,3) wl assms(5,6) Lp ck'_def s1_def] .
    have wf1: "bank_wf s1"
      using play_channel_wf [OF assms(1,2) Lp Ls ck'_def s1_def] .
    have m1: "mix_channel s1 = Some chs1" by (simp add: s1_def chs1_def c0_def)
    have w1: "nat w < length chs1" using wl assms(3) by (simp add: chs1_def)
    have cw: "chs1 ! nat w = c0" using wl assms(3) by (simp add: chs1_def)
    have "quiet (chs1 ! nat w)" "chunk_of (chunks s1) (chs1 ! nat w) = Some ck'"
      "looping (chs1 ! nat w) = loops" "playing (chs1 ! nat w) = L"
      unfolding cw c0_def using started_channel [OF assms(9)] aL alen32_small [OF a1]
      by (simp_all add: s1_def)
    with play wf1 m1 w1 show ?thesis by blast
  qed
  have finite: "\<exists>s1 s2. Mix_PlayChannelTimed t w (Some p) K ticks s = Inr (w, s1) \<and>
              mix_many ms s1 = Inr s2 \<and>
              bytes_mixed w (trace s2) =
                bytes_mixed w (trace s1) + min (sum_list (map snd ms)) (L * (K + 1)) \<and>
              (is_active (the_channels s2 ! nat w) \<longleftrightarrow>
                 sum_list (map snd ms) < L * (K + 1))"
    if K: "1 \<le> K" and nonneg: "\<forall>m \<in> set ms. 0 \<le> snd m"
  proof -
    from start [of K] obtain s1 chs1 where play: "Mix_PlayChannelTimed t w (Some p) K ticks s = Inr (w, s1)"
      and wf1: "bank_wf s1" and m1: "mix_channel s1 = Some chs1" and w1: "nat w < length chs1"
      and q: "quiet (chs1 ! nat w)" and ch: "chunk_of (chunks s1) (chs1 ! nat w) = Some ck'"
      and lo: "looping (chs1 ! nat w) = K" and pl: "playing (chs1 ! nat w) = L"
      by blast
    have i7: "0 \<le> looping (chs1 ! nat w)" and i8: "0 \<le> playing (chs1 ! nat w)"
      and i9: "playing (chs1 ! nat w) = 0 \<longrightarrow> looping (chs1 ! nat w) = 0"
      using lo pl assms(8) K by simp_all
    have P: "playing (chs1 ! nat w) + looping (chs1 ! nat w) * int (alen ck') = L * (K + 1)"
      using lo pl aL by (simp add: algebra_simps)
    from mix_run_finite [OF wf1 m1 w1 q ch a0 i7 i8 i9 nonneg a1]
    obtain s2 c' where run: "mix_many ms s1 = Inr s2"
      and c': "c' = the_channels s2 ! nat w"
      and bts: "bytes_mixed (int (nat w)) (trace s2) =
             bytes_mixed (int (nat w)) (trace s1) +
             min (sum_list (map snd ms))
               (playing (chs1 ! nat w) + looping (chs1 ! nat w) * int (alen ck'))"
      and pot: "playing c' + looping c' * int (alen ck') =
             playing (chs1 ! nat w) + looping (chs1 ! nat w) * int (alen ck') -
             min (sum_list (map snd ms))
               (playing (chs1 ! nat w) + looping (chs1 ! nat w) * int (alen ck'))"
      and nn: "0 \<le> playing c'" "0 \<le> looping c'" "playing c' = 0 \<longrightarrow> looping c' = 0"
      by blast
    have "bytes_mixed w (trace s2) =
                bytes_mixed w (trace s1) + min (sum_list (map snd ms)) (L * (K + 1))"
      using bts assms(3) unfolding P by simp
    moreover have "is_active c' \<longleftrightarrow> sum_list (map snd ms) < L * (K + 1)"
    proof -
      have "is_active c' \<longleftrightarrow> 0 < L * (K + 1) - min (sum_list (map snd ms)) (L * (K + 1))"
        using active_iff_left [OF nn assms(8)] pot aL unfolding P by simp
      then show ?thesis by (auto simp: min_def)
    qed
    ultimately show ?thesis using play run c' by blast
  qed
  have forever: "\<exists>s1 s2. Mix_PlayChannelTimed t w (Some p) (-1) ticks s = Inr (w, s1) \<and>
              mix_many ms s1 = Inr s2 \<and>
              is_active (the_channels s2 ! nat w) \<and> Mix_Playing w s2 = Inr 1"
  proof -
    from start [of "-1"] obtain s1 chs1 where
      play: "Mix_PlayChannelTimed t w (Some p) (-1) ticks s = Inr (w, s1)"
      and wf1: "bank_wf s1" and m1: "mix_channel s1 = Some chs1" and w1: "nat w < length chs1"
      and q: "quiet (chs1 ! nat w)" and ch: "chunk_of (chunks s1) (chs1 ! nat w) = Some ck'"
      and lo: "looping (chs1 ! nat w) = -1" and pl: "playing (chs1 ! nat w) = L"
      by blast
    have i7: "looping (chs1 ! nat w) < 0" and i8: "0 < playing (chs1 ! nat w)"
      using lo pl assms(8) by simp_all
    from mix_run_forever [OF wf1 m1 w1 q ch a0 i7 i8 a1, of ms]
    obtain s2 where run: "mix_many ms s1 = Inr s2" and wf2: "bank_wf s2"
      and len2: "length (the_channels s2) = length chs1"
      and p2: "0 < playing (the_channels s2 ! nat w)"
      by blast
    have act: "is_active (the_channels s2 ! nat w)" using p2 by (simp add: is_active_def)
    have "Mix_Playing w s2 = Inr (if is_active (the_channels s2 ! nat w) then 1 else 0)"
      using wf2 assms(3) len2 w1 by (intro Mix_Playing_one) simp_all
    with act play run show ?thesis by auto
  qed
  from finite forever show ?thesis by blast
qed

lemma ex_mixer_facts:
  "bank_wf ex_mixer" "mix_channel ex_mixer = Some [ex_channel, ex_channel]"
  "num_channels ex_mixer = 2" "channel_done_callback ex_mixer"
  "chunks ex_mixer 1 = Some ex_chunk" "chunks ex_mixer (Suc 0) = Some ex_chunk"
  "frame_width ex_mixer = 2"
  "int (truncate_alen 2 (alen ex_chunk)) = 4" "\<not> is_active ex_channel"
  "trace ex_mixer = []"
  by (simp_all add: bank_wf_def bank_ok_def the_channels_def chan_ok_def frame_width_def
      truncate_alen_eq is_active_def ex_mixer_def ex_channel_def ex_chunk_def)

theorem play_once_notifies_once_witness:
  "\<exists>s1. Mix_PlayChannelTimed 5 0 (Some 1) 0 0 ex_mixer = Inr (0, s1) \<and>
      (\<exists>s'. mix_many [(10, 1), (20, 3)] s1 = Inr s' \<and>
            done_count 0 (trace s') = 1 \<and> Mix_Playing 0 s' = Inr 0) \<and>
      (\<exists>s'. mix_many [(10, 1)] s1 = Inr s' \<and>
            done_count 0 (trace s') = 0 \<and> Mix_Playing 0 s' = Inr 1)"
proof -
  have "\<exists>s1. Mix_PlayChannelTimed 5 0 (Some 1) 0 0 ex_mixer = Inr (0, s1) \<and>
           (\<forall>n \<le> length [(10 :: 32 word, 1 :: int), (20, 3)].
              \<exists>s'. mix_many (take n [(10, 1), (20, 3)]) s1 = Inr s' \<and>
              done_count 0 (trace s') =
                done_count 0 (trace ex_mixer) +
                (if 4 \<le> sum_list (map snd (take n [(10 :: 32 word, 1 :: int), (20, 3)]))
                 then 1 else 0) \<and>
              Mix_Playing 0 s' =
                Inr (if 4 \<le> sum_list (map snd (take n [(10 :: 32 word, 1 :: int), (20, 3)]))
                     then 0 else 1))"
    by (rule play_once_notifies_once [where chs = "[ex_channel, ex_channel]" and ck = ex_chunk])
       (simp_all add: ex_mixer_facts)
  then obtain s1 where p: "Mix_PlayChannelTimed 5 0 (Some 1) 0 0 ex_mixer = Inr (0, s1)"
    and a: "\<And>n. n \<le> 2 \<Longrightarrow> \<exists>s'. mix_many (take n [(10, 1), (20, 3)]) s1 = Inr s' \<and>
              done_count 0 (trace s') =
                (if 4 \<le> sum_list (map snd (take n [(10 :: 32 word, 1 :: int), (20, 3)]))
                 then 1 else 0) \<and>
              Mix_Playing 0 s' =
                Inr (if 4 \<le> sum_list (map snd (take n [(10 :: 32 word, 1 :: int), (20, 3)]))
                     then 0 else 1)"
    by (auto simp: ex_mixer_facts)
  from a [of 2] have 2: "\<exists>s'. mix_many [(10, 1), (20, 3)] s1 = Inr s' \<and>
            done_count 0 (trace s') = 1 \<and> Mix_Playing 0 s' = Inr 0"
    by simp
  from a [of 1] have 1: "\<exists>s'. mix_many [(10, 1)] s1 = Inr s' \<and>
            done_count 0 (trace s') = 0 \<and> Mix_Playing 0 s' = Inr 1"
    by simp
  from p 1 2 show ?thesis by blast
qed

theorem looping_play_byte_count_witness:
  "(\<exists>s1 s2. Mix_PlayChannelTimed 5 0 (Some 1) 1 0 ex_mixer = Inr (0, s1) \<and>
       mix_many [(10, 6), (20, 2)] s1 = Inr s2 \<and>
       bytes_mixed 0 (trace s2) = bytes_mixed 0 (trace s1) + 8 \<and>
       \<not> is_active (the_channels s2 ! 0)) \<and>
   (\<exists>s1 s2. Mix_PlayChannelTimed 5 0 (Some 1) (-1) 0 ex_mixer = Inr (0, s1) \<and>
       mix_many [(10, 6), (20, 2)] s1 = Inr s2 \<and> Mix_Playing 0 s2 = Inr 1)"
proof -
  have "(1 \<le> (1 :: int) \<and> (\<forall>m \<in> set [(10 :: 32 word, 6 :: int), (20, 2)]. 0 \<le> snd m) \<longrightarrow>
           (\<exists>s1 s2. Mix_PlayChannelTimed 5 0 (Some 1) 1 0 ex_mixer = Inr (0, s1) \<and>
              mix_many [(10, 6), (20, 2)] s1 = Inr s2 \<and>
              bytes_mixed 0 (trace s2) =
                bytes_mixed 0 (trace s1) +
                min (sum_list (map snd [(10 :: 32 word, 6 :: int), (20, 2)])) (4 * (1 + 1)) \<and>
              (is_active (the_channels s2 ! nat 0) \<longleftrightarrow>
                 sum_list (map snd [(10 :: 32 word, 6 :: int), (20, 2)]) < 4 * (1 + 1)))) \<and>
         (\<exists>s1 s2. Mix_PlayChannelTimed 5 0 (Some 1) (-1) 0 ex_mixer = Inr (0, s1) \<and>
              mix_many [(10, 6), (20, 2)] s1 = Inr s2 \<and>
              is_active (the_channels s2 ! nat 0) \<and> Mix_Playing 0 s2 = Inr 1)"
    by (rule looping_play_byte_count [where chs = "[ex_channel, ex_channel]" and ck = ex_chunk])
       (simp_all add: ex_mixer_facts)
  then show ?thesis by (simp, blast)
qed

section \<open>Fading out\<close>

lemma uint_sub_half: "uint ((D :: 32 word) - D div 2) = uint D - uint D div 2"
proof -
  have "uint D div 2 \<le> uint D" using uint_ge_0 [of D] by linarith
  then have "uint (D div 2) \<le> uint D" by (simp add: uint_div)
  then have "uint (D - D div 2) = uint D - uint (D div 2)"
    by (simp add: uint_sub_lem)
  then show ?thesis by (simp add: uint_div)
qed

lemma scaled_le:
  fixes V h d :: int
  assumes "0 \<le> V" and "0 \<le> h" and "h \<le> d" and "0 < d"
  shows "0 \<le> (V * h) div d" and "(V * h) div d \<le> V"
proof -
  show "0 \<le> (V * h) div d" using assms by (simp add: pos_imp_zdiv_nonneg_iff)
  have "V * h \<le> V * d" using assms(1,3) by (simp add: mult_left_mono)
  then have "(V * h) div d \<le> (V * d) div d" using assms(4) by (rule zdiv_mono1)
  then show "(V * h) div d \<le> V" using assms(4) by simp
qed

lemma fade_out_value:
  fixes D :: "32 word"
  assumes "0 \<le> V" and "V < 2 ^ 31" and "V * (uint D - uint D div 2) < 2 ^ 32" and "0 < D"
  shows "sint ((word_of_int V * (D - D div 2)) div D) = (V * (uint D - uint D div 2)) div uint D"
proof -
  let ?h = "uint D - uint D div 2"
  have h0: "0 \<le> ?h" and hD: "?h \<le> uint D" using uint_ge_0 [of D] by linarith+
  have D0: "0 < uint D" using assms(4) by (simp add: word_less_def)
  have "uint (word_of_int V * (D - D div 2) :: 32 word) =
          (uint (word_of_int V :: 32 word) * uint (D - D div 2)) mod 2 ^ 32"
    by (simp add: uint_word_ariths)
  also have "\<dots> = ((V mod 2 ^ 32) * ?h) mod 2 ^ 32"
    by (simp only: uint_sub_half uint_word_of_int) simp
  also have "\<dots> = (V * ?h) mod 2 ^ 32"
    by (simp add: mod_mult_left_eq)
  also have "\<dots> = V * ?h" using assms(1,3) h0 by (simp add: mod_pos_pos_trivial)
  finally have u: "uint (word_of_int V * (D - D div 2) :: 32 word) = V * ?h" .
  have q: "uint ((word_of_int V * (D - D div 2)) div D) = (V * ?h) div uint D"
    by (simp add: uint_div u)
  have "(V * ?h) div uint D \<le> V" using assms(1) h0 hD D0 by (rule scaled_le)
  with assms(2) q have "uint ((word_of_int V * (D - D div 2)) div D) < 2 ^ 31" by simp
  then show ?thesis using q by (simp add: sint_small)
qed

lemma half_even:
  fixes V d :: int
  assumes "even d" and "0 < d"
  shows "(V * (d - d div 2)) div d = V div 2"
proof -
  from assms obtain h where h: "d = 2 * h" "0 < h" by (auto elim: evenE)
  then have "(V * (d - d div 2)) div d = (V * h) div (2 * h)" by simp
  also have "\<dots> = V div 2" using h(2) by (simp add: mult.commute)
  finally show ?thesis .
qed

lemma mix_samples_keeps:
  assumes "chan_ok heap c" and "mix_samples cb heap len i c = Inr (c', evs)"
  shows "other_fields c' = other_fields c"
proof (cases "0 < playing c")
  case False
  with assms(2) show ?thesis by (simp add: mix_samples_idle)
next
  case True
  with assms(1) obtain ck where ck: "chunk_of heap c = Some ck" "0 < alen ck"
    and sm: "alen ck < 2 ^ 31"
    by (auto simp: chan_ok_def split: option.splits)
  show ?thesis
  proof (cases "0 \<le> len")
    case False
    with assms(2) True show ?thesis by (simp add: mix_samples_empty)
  next
    case len: True
    from mix_samples_run [OF ck True len sm, of cb i]
    obtain c2 evs2 where r: "mix_samples cb heap len i c = Inr (c2, evs2)"
      and o: "other_fields c2 = other_fields c" by blast
    with assms(2) show ?thesis by simp
  qed
qed

lemma word_half_le: "\<not> D < (D :: 32 word) div 2"
proof -
  have "uint D div 2 \<le> uint D" using uint_ge_0 [of D] by linarith
  then show ?thesis by (simp add: word_less_def uint_div)
qed

text \<open>
  The spec's fade request on the channel that plays the chunk leads to the state
  \<open>ex_faded\<close>.
\<close>

lemma ex_faded_reached:
  "Mix_PlayChannelTimed 0 0 (Some 1) 0 0 ex_mixer =
     Inr (0, ex_mixer\<lparr>mix_channel :=
                        Some [ex_channel\<lparr>samples := 1000, playing := 4, chunk := Some 1\<rparr>,
                              ex_channel]\<rparr>)"
  "fade 0 0 MIX_FADING_OUT 0 10
     (ex_mixer\<lparr>mix_channel :=
                 Some [ex_channel\<lparr>samples := 1000, playing := 4, chunk := Some 1\<rparr>,
                       ex_channel]\<rparr>) = Inr ex_faded"
  by (simp_all add: play_eval ex_eval fade_def fade_channel_def ex_faded_def fun_upd_idem_iff)

text \<open>
  Claim C3, as stated, fails at \<open>elapsed = D\<close>: the source finalizes a fade only when the
  elapsed time exceeds the fade length. The chunk is played on channel 0 at volume 128
  and a fade-out over 10 ticks is requested at tick 0. The callback at tick 10, with a
  buffer of 2 bytes, sets the volume to 0 and leaves the channel playing and fading: it
  mixes the 2 bytes at volume 0 and does not call the registered callback.
\<close>

theorem fade_not_finalized_at_length:
  "(case Mix_PlayChannelTimed 0 0 (Some 1) 0 0 ex_mixer of
      Inl e \<Rightarrow> False
    | Inr (r, s1) \<Rightarrow>
        (case fade 0 0 MIX_FADING_OUT 0 10 s1 of
           Inl e \<Rightarrow> False
         | Inr s2 \<Rightarrow>
             s2 = ex_faded \<and> fade_length (the_channels s2 ! 0) = 10 \<and>
             ticks_fade (the_channels s2 ! 0) = 0 \<and> fade_volume (the_channels s2 ! 0) = 128 \<and>
             fade_volume_reset (the_channels s2 ! 0) = 128 \<and>
             (case mix_channels 10 2 s2 of
                Inl e \<Rightarrow> False
              | Inr s3 \<Rightarrow>
                  volume (the_channels s3 ! 0) = 0 \<and>
                  fading (the_channels s3 ! 0) = MIX_FADING_OUT \<and>
                  playing (the_channels s3 ! 0) = 2 \<and>
                  trace s3 = [Mix_Audio 0 0 1000 2 0])))"
  by (simp only: ex_faded_reached sum.case prod.case)
     (simp add: ex_eval ex_faded_def the_channels_def)

text \<open>
  Claim C3, amended. Channel \<open>w\<close> of a well-formed bank is unpaused, not expired and fading
  out, with fade volume \<open>V\<close>, fade length \<open>D > 0\<close> and \<open>elapsed = sdl_ticks - ticks_fade\<close>.
  If \<open>elapsed = D div 2\<close>, \<open>0 \<le> V \<le> MAX\<close> and \<open>V * (D - D div 2)\<close> fits 32 bits, the
  mixing callback sets the volume to \<open>(V * (D - D div 2)) div D\<close> (which is \<open>V div 2\<close> when
  \<open>D\<close> is even) and the channel keeps fading. If \<open>elapsed > D\<close>, the callback hands the
  recorded reset value to \<^verbatim>\<open>Mix_Volume\<close> (the volume is that value when it lies in
  \<open>0 .. MAX\<close>), sets \<open>playing = 0\<close>, \<open>looping = 0\<close>, \<open>expire = 0\<close>, clears the fade state
  and calls the registered callback once for \<open>w\<close>. If \<open>elapsed = D\<close>, the callback sets the
  volume to 0 and does not finalize the fade: it goes on to mix the samples of the
  channel at volume 0, and the channel keeps fading, with its deadline as before.
\<close>

theorem fade_out_tick:
  assumes "bank_wf s" and "mix_channel s = Some chs" and "w < length chs" and "c = chs ! w"
    and "paused c = 0" and "\<not> (0 < expire c \<and> expire c < sdl_ticks)"
    and "fading c = MIX_FADING_OUT"
    and "D = fade_length c" and "0 < D" and "elapsed = sdl_ticks - ticks_fade c"
    and "V = fade_volume c"
  shows "(elapsed = D div 2 \<and> 0 \<le> V \<and> V \<le> SDL_MIX_MAXVOLUME \<and>
          V * (uint D - uint D div 2) < 2 ^ 32 \<longrightarrow>
            (\<exists>s'. mix_channels sdl_ticks len s = Inr s' \<and>
                  volume (the_channels s' ! w) = (V * (uint D - uint D div 2)) div uint D \<and>
                  (even (uint D) \<longrightarrow> volume (the_channels s' ! w) = V div 2) \<and>
                  fading (the_channels s' ! w) = MIX_FADING_OUT)) \<and>
         (D < elapsed \<longrightarrow>
            (\<exists>s'. mix_channels sdl_ticks len s = Inr s' \<and>
                  the_channels s' ! w =
                    (set_volume (fade_volume_reset c) c)
                      \<lparr>playing := 0, looping := 0, expire := 0, fading := MIX_NO_FADING\<rparr> \<and>
                  (0 \<le> fade_volume_reset c \<and> fade_volume_reset c \<le> SDL_MIX_MAXVOLUME \<longrightarrow>
                     volume (the_channels s' ! w) = fade_volume_reset c) \<and>
                  done_count (int w) (trace s') =
                    done_count (int w) (trace s) +
                    (if channel_done_callback s then 1 else 0))) \<and>
         (elapsed = D \<longrightarrow>
            (\<exists>s' ev. mix_channels sdl_ticks len s = Inr s' \<and>
                  mix_samples (channel_done_callback s) (chunks s) len (int w)
                    (c\<lparr>volume := 0\<rparr>) = Inr (the_channels s' ! w, ev) \<and>
                  volume (the_channels s' ! w) = 0 \<and>
                  fading (the_channels s' ! w) = MIX_FADING_OUT \<and>
                  expire (the_channels s' ! w) = expire c))"
proof -
  let ?cb = "channel_done_callback s"
  from mix_channels_step [OF assms(1,2,3), of sdl_ticks len] obtain s' c' ev where
    step: "mix_channels sdl_ticks len s = Inr s'"
    and one: "mix_one ?cb (chunks s) sdl_ticks len (int w) (chs ! w) = Inr (c', ev)"
    and c': "the_channels s' ! w = c'"
    and d: "done_count (int w) (trace s') = done_count (int w) (trace s) + done_count (int w) ev"
    by blast
  from assms(1,2,3) have ok: "chan_ok (chunks s) (chs ! w)"
    by (auto simp: bank_wf_def the_channels_def list_all_length)
  have D0: "0 < uint D" using assms(9) by (simp add: word_less_def)
  have Dn: "D \<noteq> 0" using assms(9) by auto
  have ne: "(0 < expire c \<and> expire c < sdl_ticks) = False" using assms(6) by simp
  have half: "volume c' = (V * (uint D - uint D div 2)) div uint D \<and>
              (even (uint D) \<longrightarrow> volume c' = V div 2) \<and> fading c' = MIX_FADING_OUT"
    if e: "elapsed = D div 2" and V: "0 \<le> V" "V \<le> SDL_MIX_MAXVOLUME"
      and small: "V * (uint D - uint D div 2) < 2 ^ 32"
  proof -
    let ?F = "(V * (uint D - uint D div 2)) div uint D"
    have V31: "V < 2 ^ 31" using V(2) by (simp add: SDL_MIX_MAXVOLUME_def)
    have F: "sint ((word_of_int V * (D - D div 2)) div D) = ?F"
      using V(1) V31 small assms(9) by (rule fade_out_value)
    have h: "0 \<le> uint D - uint D div 2" "uint D - uint D div 2 \<le> uint D"
      using uint_ge_0 [of D] by linarith+
    have Fr: "0 \<le> ?F" "?F \<le> V" using scaled_le [OF V(1) h D0] by simp_all
    define c1 where "c1 = set_volume ?F c"
    have ef: "expire_fade ?cb sdl_ticks (int w) c = Inr (c1, [])"
      using assms(7) Dn e F word_half_le [of D]
      by (simp add: expire_fade_def Let_def c1_def ne
          assms(8) [symmetric] assms(10) [symmetric] assms(11) [symmetric])
    have v1: "volume c1 = ?F" and f1: "fading c1 = MIX_FADING_OUT"
      using Fr V(2) assms(7) by (simp_all add: c1_def set_volume_def)
    have ok1: "chan_ok (chunks s) c1"
      using ok assms(4) by (simp add: chan_ok_def c1_def chunk_of_def)
    from one ef assms(4,5) obtain ev2 where
      ms: "mix_samples ?cb (chunks s) len (int w) c1 = Inr (c', ev2)"
      by (auto simp: mix_one_def split: sum.splits)
    from mix_samples_keeps [OF ok1 ms] have o: "other_fields c' = other_fields c1" .
    have "volume c' = ?F" "fading c' = MIX_FADING_OUT"
      using other_fields_eqD(3,7) [OF o] v1 f1 by simp_all
    moreover have "even (uint D) \<longrightarrow> ?F = V div 2"
      using half_even [of "uint D" V] D0 by simp
    ultimately show ?thesis by simp
  qed
  have final: "c' = (set_volume (fade_volume_reset c) c)
                      \<lparr>playing := 0, looping := 0, expire := 0, fading := MIX_NO_FADING\<rparr> \<and>
               (0 \<le> fade_volume_reset c \<and> fade_volume_reset c \<le> SDL_MIX_MAXVOLUME \<longrightarrow>
                  volume c' = fade_volume_reset c) \<and>
               done_count (int w) ev = (if ?cb then 1 else 0)"
    if gt: "D < elapsed"
  proof -
    let ?c2 = "(set_volume (fade_volume_reset c) c)
                 \<lparr>playing := 0, looping := 0, expire := 0, fading := MIX_NO_FADING\<rparr>"
    have ef: "expire_fade ?cb sdl_ticks (int w) c =
                Inr (?c2, Mix_channel_done_playing ?cb (int w))"
      using assms(7) gt
      by (simp add: expire_fade_def Let_def ne assms(8) [symmetric] assms(10) [symmetric])
    have "mix_samples ?cb (chunks s) len (int w) ?c2 = Inr (?c2, [])"
      by (simp add: mix_samples_idle)
    with one ef assms(4,5) have r: "c' = ?c2" "ev = Mix_channel_done_playing ?cb (int w)"
      by (simp_all add: mix_one_def)
    show ?thesis
      unfolding r by (simp add: set_volume_def Mix_channel_done_playing_def)
  qed
  have at: "\<exists>ev2. mix_samples ?cb (chunks s) len (int w) (c\<lparr>volume := 0\<rparr>) = Inr (c', ev2) \<and>
              volume c' = 0 \<and> fading c' = MIX_FADING_OUT \<and> expire c' = expire c"
    if e: "elapsed = D"
  proof -
    have ef: "expire_fade ?cb sdl_ticks (int w) c = Inr (c\<lparr>volume := 0\<rparr>, [])"
      using assms(7) Dn e
      by (simp add: expire_fade_def Let_def set_volume_def SDL_MIX_MAXVOLUME_def ne
          assms(8) [symmetric] assms(10) [symmetric])
    have ok1: "chan_ok (chunks s) (c\<lparr>volume := 0\<rparr>)"
      using ok assms(4) by (simp add: chan_ok_def chunk_of_def)
    from one ef assms(4,5) obtain ev2 where
      ms: "mix_samples ?cb (chunks s) len (int w) (c\<lparr>volume := 0\<rparr>) = Inr (c', ev2)"
      by (auto simp: mix_one_def split: sum.splits)
    from mix_samples_keeps [OF ok1 ms] have o: "other_fields c' = other_fields (c\<lparr>volume := 0\<rparr>)" .
    have "volume c' = 0" "fading c' = MIX_FADING_OUT" "expire c' = expire c"
      using other_fields_eqD(3,5,7) [OF o] assms(7) by simp_all
    with ms show ?thesis by blast
  qed
  have A: "elapsed = D div 2 \<and> 0 \<le> V \<and> V \<le> SDL_MIX_MAXVOLUME \<and>
          V * (uint D - uint D div 2) < 2 ^ 32 \<longrightarrow>
            (\<exists>s'. mix_channels sdl_ticks len s = Inr s' \<and>
                  volume (the_channels s' ! w) = (V * (uint D - uint D div 2)) div uint D \<and>
                  (even (uint D) \<longrightarrow> volume (the_channels s' ! w) = V div 2) \<and>
                  fading (the_channels s' ! w) = MIX_FADING_OUT)"
    using step c' half by auto
  have B: "D < elapsed \<longrightarrow>
            (\<exists>s'. mix_channels sdl_ticks len s = Inr s' \<and>
                  the_channels s' ! w =
                    (set_volume (fade_volume_reset c) c)
                      \<lparr>playing := 0, looping := 0, expire := 0, fading := MIX_NO_FADING\<rparr> \<and>
                  (0 \<le> fade_volume_reset c \<and> fade_volume_reset c \<le> SDL_MIX_MAXVOLUME \<longrightarrow>
                     volume (the_channels s' ! w) = fade_volume_reset c) \<and>
                  done_count (int w) (trace s') =
                    done_count (int w) (trace s) +
                    (if channel_done_callback s then 1 else 0))"
    using step c' d final by auto
  have C: "elapsed = D \<longrightarrow>
            (\<exists>s' ev. mix_channels sdl_ticks len s = Inr s' \<and>
                  mix_samples (channel_done_callback s) (chunks s) len (int w)
                    (c\<lparr>volume := 0\<rparr>) = Inr (the_channels s' ! w, ev) \<and>
                  volume (the_channels s' ! w) = 0 \<and>
                  fading (the_channels s' ! w) = MIX_FADING_OUT \<and>
                  expire (the_channels s' ! w) = expire c)"
    using step c' at by auto
  from A B C show ?thesis by (intro conjI)
qed

lemma ex_faded_facts:
  "bank_wf ex_faded" "mix_channel ex_faded = Some [ex_fading, ex_channel]"
  "paused ex_fading = 0" "expire ex_fading = 0" "fading ex_fading = MIX_FADING_OUT"
  "fade_length ex_fading = 10" "ticks_fade ex_fading = 0" "fade_volume ex_fading = 128"
  "fade_volume_reset ex_fading = 128" "channel_done_callback ex_faded"
  "trace ex_faded = []"
  by (simp_all add: bank_wf_def bank_ok_def the_channels_def chan_ok_def chunk_of_def
      ex_faded_def ex_mixer_def ex_fading_def ex_channel_def ex_chunk_def)

theorem fade_out_tick_witness:
  "(\<exists>s'. mix_channels 5 0 ex_faded = Inr s' \<and>
         volume (the_channels s' ! 0) = 64 \<and> fading (the_channels s' ! 0) = MIX_FADING_OUT) \<and>
   (\<exists>s'. mix_channels 11 0 ex_faded = Inr s' \<and>
         volume (the_channels s' ! 0) = 128 \<and> playing (the_channels s' ! 0) = 0 \<and>
         fading (the_channels s' ! 0) = MIX_NO_FADING \<and> done_count 0 (trace s') = 1) \<and>
   (\<exists>s'. mix_channels 10 0 ex_faded = Inr s' \<and>
         volume (the_channels s' ! 0) = 0 \<and> fading (the_channels s' ! 0) = MIX_FADING_OUT)"
proof -
  have w: "(0 :: nat) < length [ex_fading, ex_channel]"
    and c: "ex_fading = [ex_fading, ex_channel] ! 0" by simp_all
  have ne: "\<not> (0 < expire ex_fading \<and> expire ex_fading < t)" for t
    by (simp add: ex_faded_facts)
  have D: "(10 :: 32 word) = fade_length ex_fading" "0 < (10 :: 32 word)"
    and V: "(128 :: int) = fade_volume ex_fading"
    by (simp_all add: ex_faded_facts)
  have e: "(5 :: 32 word) = 5 - ticks_fade ex_fading" "(11 :: 32 word) = 11 - ticks_fade ex_fading"
    "(10 :: 32 word) = 10 - ticks_fade ex_fading"
    by (simp_all add: ex_faded_facts)
  note th = fade_out_tick [OF ex_faded_facts(1,2) w c ex_faded_facts(3) ne ex_faded_facts(5)
      D _ V, where len = 0]
  from th [OF e(1), THEN conjunct1]
  have a: "\<exists>s'. mix_channels 5 0 ex_faded = Inr s' \<and>
         volume (the_channels s' ! 0) = 64 \<and> fading (the_channels s' ! 0) = MIX_FADING_OUT"
    by (simp add: SDL_MIX_MAXVOLUME_def)
  from th [OF e(2), THEN conjunct2, THEN conjunct1]
  have b: "\<exists>s'. mix_channels 11 0 ex_faded = Inr s' \<and>
         volume (the_channels s' ! 0) = 128 \<and> playing (the_channels s' ! 0) = 0 \<and>
         fading (the_channels s' ! 0) = MIX_NO_FADING \<and> done_count 0 (trace s') = 1"
    by (auto simp: ex_faded_facts SDL_MIX_MAXVOLUME_def set_volume_def)
  from th [OF e(3), THEN conjunct2, THEN conjunct2]
  have c: "\<exists>s'. mix_channels 10 0 ex_faded = Inr s' \<and>
         volume (the_channels s' ! 0) = 0 \<and> fading (the_channels s' ! 0) = MIX_FADING_OUT"
    by auto
  from a b c show ?thesis by (intro conjI)
qed

section \<open>The states of an open mixer\<close>

text \<open>
  No function of the file starts a fade, and the functions that write \<^verbatim>\<open>playing\<close> and
  \<^verbatim>\<open>looping\<close> keep them in step. This section shows both of every state that the open
  mixer can be in.
\<close>

lemma alen32_nonzero: "0 < alen ck \<Longrightarrow> alen ck < 2 ^ 32 \<Longrightarrow> sint (alen32 ck) \<noteq> 0"
proof (cases "alen ck < 2 ^ 31")
  case True
  assume "0 < alen ck"
  with alen32_small [OF True] show ?thesis by simp
next
  case False
  assume "alen ck < 2 ^ 32"
  with False alen32_big [of ck] show ?thesis by simp
qed

lemma alen32_pos: "alen ck < 2 ^ 32 \<Longrightarrow> 0 < sint (alen32 ck) \<Longrightarrow> alen ck < 2 ^ 31"
proof (rule ccontr)
  assume a: "alen ck < 2 ^ 32" "0 < sint (alen32 ck)" "\<not> alen ck < 2 ^ 31"
  with alen32_big [of ck] show False by simp
qed



lemma chan_inv_same:
  assumes "chan_inv fw heap c" and "chunk c' = chunk c" and "playing c' = playing c"
    and "looping c' = looping c" and "fading c' = fading c"
  shows "chan_inv fw heap c'"
  using assms by (simp add: chan_inv_def chunk_of_def)

lemma chan_inv_stopped:
  "fading c = MIX_NO_FADING \<Longrightarrow> playing c = 0 \<Longrightarrow> looping c = 0 \<Longrightarrow> chan_inv fw heap c"
  by (simp add: chan_inv_def)

lemma chan_inv_default: "is_default c \<Longrightarrow> chan_inv fw heap c"
  by (simp add: is_default_def chan_inv_def)

lemma chan_inv_halt: "chan_inv fw heap c \<Longrightarrow> chan_inv fw heap (fst (halt_channel cb i c))"
  by (auto simp: halt_channel_def chan_inv_def chunk_of_def Let_def)

lemma chan_inv_start:
  assumes "heap p = Some ck'" and "0 < alen ck'" and "alen ck' < 2 ^ 32"
    and "alen ck' mod fw = 0"
  shows "chan_inv fw heap (start_channel t ck' p loops ticks c)"
  using assms alen32_nonzero [OF assms(2,3)] alen32_pos [OF assms(3)]
  by (simp add: chan_inv_def start_channel_def chunk_of_def)

lemma truncate_whole: "a mod fw = 0 \<Longrightarrow> truncate_alen fw a = a"
  by (subst truncate_alen.simps) simp

lemma truncate_alen_mod: "truncate_alen fw a mod fw = 0"
  by (simp add: truncate_alen_eq minus_mod_eq_mult_div)

lemma truncate_alen_le: "truncate_alen fw a \<le> a"
  by (simp add: truncate_alen_eq)

text \<open>Truncating the length of a chunk again does not disturb the channels that play it.\<close>

lemma chan_inv_truncate:
  assumes "chan_inv fw heap c" and "heap p = Some ck"
  shows "chan_inv fw (heap(p \<mapsto> ck\<lparr>alen := truncate_alen fw (alen ck)\<rparr>)) c"
proof (cases "0 < playing c \<and> chunk c = Some p")
  case False
  with assms(1) show ?thesis by (auto simp: chan_inv_def chunk_of_def split: option.splits)
next
  case True
  with assms have "alen ck mod fw = 0" by (simp add: chan_inv_def chunk_of_def)
  then have "ck\<lparr>alen := truncate_alen fw (alen ck)\<rparr> = ck" by (simp add: truncate_whole)
  moreover have "heap(p \<mapsto> ck) = heap" using assms(2) by auto
  ultimately show ?thesis using assms(1) by simp
qed

lemma chan_inv_free:
  "chan_inv fw heap c \<Longrightarrow> chan_inv fw (heap(p := None)) (stop_if_chunk p c)"
  by (auto simp: chan_inv_def stop_if_chunk_def chunk_of_def split: option.splits)

lemma chan_inv_load:
  "chan_inv fw heap c \<Longrightarrow> heap p = None \<Longrightarrow> chan_inv fw (heap(p \<mapsto> ck)) c"
  by (auto simp: chan_inv_def chunk_of_def split: option.splits)

lemma chan_inv_mix_samples:
  assumes inv: "chan_inv fw heap c" and r: "mix_samples cb heap len i c = Inr (c', ev)"
  shows "chan_inv fw heap c'"
proof (cases "0 < playing c")
  case False
  with r inv show ?thesis by (simp add: mix_samples_idle)
next
  case True
  with inv obtain ck where ck: "chunk_of heap c = Some ck" and L: "0 < alen ck"
    and sm: "alen ck < 2 ^ 31" and fr: "alen ck mod fw = 0"
    by (auto simp: chan_inv_def split: option.splits)
  show ?thesis
  proof (cases "0 \<le> len")
    case False
    with r True inv show ?thesis by (simp add: mix_samples_empty)
  next
    case len: True
    from mix_samples_run [OF ck L True len sm, of cb i]
    obtain c2 evs where r2: "mix_samples cb heap len i c = Inr (c2, evs)"
      and o: "other_fields c2 = other_fields c"
      and neg: "looping c < 0 \<longrightarrow> looping c2 = looping c \<and> 0 < playing c2"
      and fin: "0 \<le> looping c \<longrightarrow> (playing c2 = 0 \<longrightarrow> looping c2 = 0)"
      by blast
    from r r2 have e: "c2 = c'" by simp
    have f: "fading c' = MIX_NO_FADING" and ch: "chunk_of heap c' = Some ck"
      using other_fields_eqD(1,7) [OF o] inv ck unfolding e
      by (simp_all add: chan_inv_def chunk_of_def)
    have "playing c' = 0 \<longrightarrow> looping c' = 0"
      using neg fin unfolding e by (cases "looping c < 0") auto
    with f ch L sm fr show ?thesis by (simp add: chan_inv_def)
  qed
qed

lemma chan_inv_mix_one:
  assumes inv: "chan_inv fw heap c" and r: "mix_one cb heap sdl_ticks len i c = Inr (c', ev)"
  shows "chan_inv fw heap c'"
proof (cases "paused c = 0")
  case False
  with r inv show ?thesis by (simp add: mix_one_def)
next
  case True
  from inv have nf: "fading c = MIX_NO_FADING" by (simp add: chan_inv_def)
  define c1 where "c1 = (if 0 < expire c \<and> expire c < sdl_ticks
                          then c\<lparr>playing := 0, looping := 0, fading := MIX_NO_FADING, expire := 0\<rparr>
                          else c)"
  have "\<exists>ev1. expire_fade cb sdl_ticks i c = Inr (c1, ev1)"
    using nf by (simp add: expire_fade_def c1_def)
  then obtain ev1 where ef: "expire_fade cb sdl_ticks i c = Inr (c1, ev1)" ..
  have inv1: "chan_inv fw heap c1"
    using inv by (auto simp: c1_def chan_inv_def chunk_of_def)
  from r True ef obtain ev2 where "mix_samples cb heap len i c1 = Inr (c', ev2)"
    by (auto simp: mix_one_def split: sum.splits)
  with inv1 show ?thesis by (rule chan_inv_mix_samples)
qed

lemma update_channel_result:
  assumes "update_channel i f s = Inr s'"
  obtains chs c ev where "mix_channel s = Some chs" and "0 \<le> i" and "i < int (length chs)"
    and "f (chs ! nat i) = Inr (c, ev)"
    and "s' = s\<lparr>mix_channel := Some (chs[nat i := c]), trace := trace s @ ev\<rparr>"
  using assms
  by (auto simp: update_channel_def split: option.splits if_splits sum.splits)

lemma open_inv_update:
  assumes "open_inv s" and "update_channel i f s = Inr s'"
    and "\<And>c c' ev. chan_inv (frame_width s) (chunks s) c \<Longrightarrow> f c = Inr (c', ev) \<Longrightarrow>
           chan_inv (frame_width s) (chunks s) c'"
  shows "open_inv s'"
proof -
  from assms(2) obtain chs c ev where chs: "mix_channel s = Some chs"
    and i: "0 \<le> i" "i < int (length chs)" and f: "f (chs ! nat i) = Inr (c, ev)"
    and s': "s' = s\<lparr>mix_channel := Some (chs[nat i := c]), trace := trace s @ ev\<rparr>"
    by (rule update_channel_result)
  from assms(1) chs have all: "\<forall>k<length chs. chan_inv (frame_width s) (chunks s) (chs ! k)"
    and n: "num_channels s = int (length chs)" and st: "store_ok (chunks s)"
    by (auto simp: open_inv_def bank_inv_def bank_ok_def the_channels_def list_all_length)
  from all i have "chan_inv (frame_width s) (chunks s) (chs ! nat i)" by simp
  from this f have new: "chan_inv (frame_width s) (chunks s) c" by (rule assms(3))
  have "chan_inv (frame_width s) (chunks s) ((chs[nat i := c]) ! k)" if "k < length chs" for k
    using that all new by (cases "k = nat i") simp_all
  then show ?thesis
    using n st
    by (simp add: s' open_inv_def bank_inv_def bank_ok_def the_channels_def list_all_length
        frame_width_def)
qed

lemma for_channels_inv:
  assumes "for_channels body i hi s = Inr s'" and "P s"
    and "\<And>i s s'. P s \<Longrightarrow> body i s = Inr s' \<Longrightarrow> P s'"
  shows "P s'"
  using assms
proof (induction body i hi s rule: for_channels.induct)
  case (1 body i hi s)
  show ?case
  proof (cases "i < hi")
    case False
    with "1.prems"(1,2) show ?thesis by (subst (asm) for_channels.simps) simp
  next
    case True
    with "1.prems"(1) obtain s1 where b: "body i s = Inr s1"
      and rest: "for_channels body (i + 1) hi s1 = Inr s'"
      by (subst (asm) for_channels.simps) (auto split: sum.splits)
    from "1.prems"(2) b have "P s1" by (rule "1.prems"(3))
    from "1.IH" [OF True b rest this "1.prems"(3)] show ?thesis .
  qed
qed

lemma open_inv_env:
  assumes "open_inv s" and "mix_channel s' = mix_channel s" and "num_channels s' = num_channels s"
    and "chunks s' = chunks s" and "mixer_format s' = mixer_format s"
    and "mixer_channels s' = mixer_channels s"
  shows "open_inv s'"
  using assms
  by (simp add: open_inv_def bank_inv_def bank_ok_def the_channels_def frame_width_def
      split: option.splits)

lemma opened_inv: "opened s \<Longrightarrow> open_inv s"
  by (auto simp: opened_def open_inv_def bank_inv_def list_all_length chan_inv_default)

lemma load_inv:
  assumes "open_inv s" and "chunks s p = None" and "alen ck < 2 ^ 32"
  shows "open_inv (s\<lparr>chunks := (chunks s)(p \<mapsto> ck)\<rparr>)"
  using assms
  by (auto simp: open_inv_def bank_inv_def bank_ok_def the_channels_def frame_width_def
      store_ok_def list_all_length chan_inv_load split: option.splits)

lemma halt_one_inv:
  assumes "open_inv s" and "Mix_HaltChannel_one which s = Inr s'"
  shows "open_inv s'"
proof (cases "which < num_channels s")
  case False
  with assms show ?thesis by (simp add: Mix_HaltChannel_one_def)
next
  case True
  with assms(2) have u: "update_channel which
      (\<lambda>c. Inr (halt_channel (channel_done_callback s) which c)) s = Inr s'"
    by (simp add: Mix_HaltChannel_one_def)
  show ?thesis
  proof (rule open_inv_update [OF assms(1) u])
    fix c c' ev
    assume "chan_inv (frame_width s) (chunks s) c"
      and "Inr (halt_channel (channel_done_callback s) which c) = Inr (c', ev)"
    then show "chan_inv (frame_width s) (chunks s) c'"
      using chan_inv_halt [of "frame_width s" "chunks s" c "channel_done_callback s" which]
      by (cases "halt_channel (channel_done_callback s) which c") simp
  qed
qed

lemma halt_inv:
  assumes "open_inv s" and "Mix_HaltChannel which s = Inr s'"
  shows "open_inv s'"
proof (cases "which = -1")
  case False
  with assms show ?thesis by (simp add: Mix_HaltChannel_def halt_one_inv)
next
  case True
  with assms(2) have "for_channels Mix_HaltChannel_one 0 (num_channels s) s = Inr s'"
    by (simp add: Mix_HaltChannel_def)
  from this assms(1) show ?thesis
    by (rule for_channels_inv) (rule halt_one_inv)
qed

text \<open>A step that leaves the chunk, the counters and the fade state of the channel alone.\<close>

lemma field_update_inv:
  assumes "open_inv s" and "update_channel i (\<lambda>c. Inr (g c, [])) s = Inr s'"
    and "\<And>c. chunk (g c) = chunk c \<and> playing (g c) = playing c \<and> looping (g c) = looping c \<and>
              fading (g c) = fading c"
  shows "open_inv s'"
proof (rule open_inv_update [OF assms(1,2)])
  fix c c' ev
  assume inv: "chan_inv (frame_width s) (chunks s) c"
    and "Inr (g c, []) = (Inr (c', ev) :: fault + Mix_Channel \<times> event list)"
  then have "c' = g c" by simp
  with inv assms(3) [of c] show "chan_inv (frame_width s) (chunks s) c'"
    by (simp add: chan_inv_same)
qed

lemma volume_one_inv:
  assumes "open_inv s" and "Mix_Volume_one which v s = Inr (r, s')"
  shows "open_inv s'"
proof (cases "which < num_channels s")
  case False
  with assms show ?thesis by (simp add: Mix_Volume_one_def)
next
  case True
  with assms(2) have "update_channel which (\<lambda>c. Inr (set_volume v c, [])) s = Inr s'"
    by (auto simp: Mix_Volume_one_def split: sum.splits)
  with assms(1) show ?thesis
    by (rule field_update_inv) (simp add: set_volume_def)
qed

lemma volume_all_inv:
  assumes "Mix_Volume_all v i hi prev s = Inr (r, s')" and "open_inv s"
  shows "open_inv s'"
  using assms
proof (induction v i hi prev s rule: Mix_Volume_all.induct)
  case (1 v i hi prev s)
  show ?case
  proof (cases "i < hi")
    case False
    with "1.prems" show ?thesis by (subst (asm) Mix_Volume_all.simps) simp
  next
    case True
    with "1.prems"(1) obtain p s1 where b: "Mix_Volume_one i v s = Inr (p, s1)"
      and rest: "Mix_Volume_all v (i + 1) hi (prev + p) s1 = Inr (r, s')"
      by (subst (asm) Mix_Volume_all.simps) (auto split: sum.splits)
    from "1.prems"(2) b have "open_inv s1" by (rule volume_one_inv)
    from "1.IH" [OF True b refl rest this] show ?thesis .
  qed
qed

lemma volume_inv:
  assumes "open_inv s" and "Mix_Volume which v s = Inr (r, s')"
  shows "open_inv s'"
proof (cases "which = -1")
  case False
  with assms show ?thesis by (simp add: Mix_Volume_def volume_one_inv)
next
  case True
  with assms(2) obtain p where "Mix_Volume_all v 0 (num_channels s) 0 s = Inr (p, s')"
    by (auto simp: Mix_Volume_def split: sum.splits if_splits)
  from this assms(1) show ?thesis by (rule volume_all_inv)
qed

lemma pause_one_inv:
  assumes "open_inv s" and "Mix_Pause_one sdl_ticks which s = Inr s'"
  shows "open_inv s'"
  using assms unfolding Mix_Pause_one_def
  by (rule field_update_inv) (simp add: pause_channel_def)

lemma pause_inv:
  assumes "open_inv s" and "Mix_Pause sdl_ticks which s = Inr s'"
  shows "open_inv s'"
proof (cases "which = -1")
  case True
  with assms(2) have "for_channels (Mix_Pause_one sdl_ticks) 0 (num_channels s) s = Inr s'"
    by (simp add: Mix_Pause_def)
  from this assms(1) show ?thesis
    by (rule for_channels_inv) (rule pause_one_inv)
next
  case False
  with assms show ?thesis
    by (cases "which < num_channels s") (simp_all add: Mix_Pause_def pause_one_inv)
qed

lemma resume_one_inv:
  assumes "open_inv s" and "Mix_Resume_one sdl_ticks which s = Inr s'"
  shows "open_inv s'"
  using assms unfolding Mix_Resume_one_def
  by (rule field_update_inv) (simp add: resume_channel_def Let_def)

lemma resume_inv:
  assumes "open_inv s" and "Mix_Resume sdl_ticks which s = Inr s'"
  shows "open_inv s'"
proof (cases "which = -1")
  case True
  with assms(2) have "for_channels (Mix_Resume_one sdl_ticks) 0 (num_channels s) s = Inr s'"
    by (simp add: Mix_Resume_def)
  from this assms(1) show ?thesis
    by (rule for_channels_inv) (rule resume_one_inv)
next
  case False
  with assms show ?thesis
    by (cases "which < num_channels s") (simp_all add: Mix_Resume_def resume_one_inv)
qed

lemma group_inv:
  assumes "open_inv s" and "Mix_GroupChannel which t s = Inr (r, s')"
  shows "open_inv s'"
proof (cases "which < 0 \<or> which > num_channels s")
  case True
  with assms show ?thesis by (simp add: Mix_GroupChannel_def)
next
  case False
  with assms(2) have "update_channel which (\<lambda>c. Inr (c\<lparr>tag := t\<rparr>, [])) s = Inr s'"
    by (auto simp: Mix_GroupChannel_def split: sum.splits)
  with assms(1) show ?thesis by (rule field_update_inv) simp
qed

lemma groups_inv:
  assumes "Mix_GroupChannels from to t status s = Inr (r, s')" and "open_inv s"
  shows "open_inv s'"
  using assms
proof (induction "from" to t status s rule: Mix_GroupChannels.induct)
  case (1 "from" to t status s)
  show ?case
  proof (cases "from \<le> to")
    case False
    with "1.prems" show ?thesis by (subst (asm) Mix_GroupChannels.simps) simp
  next
    case True
    with "1.prems"(1) obtain p s1 where b: "Mix_GroupChannel from t s = Inr (p, s1)"
      and rest: "Mix_GroupChannels (from + 1) to t (status + p) s1 = Inr (r, s')"
      by (subst (asm) Mix_GroupChannels.simps) (auto split: sum.splits)
    from "1.prems"(2) b have "open_inv s1" by (rule group_inv)
    from "1.IH" [OF True b refl rest this] show ?thesis .
  qed
qed

lemma expire_one_inv:
  assumes "open_inv s" and "Mix_ExpireChannel_one sdl_ticks which ticks s = Inr (r, s')"
  shows "open_inv s'"
proof (cases "which < num_channels s")
  case False
  with assms show ?thesis by (simp add: Mix_ExpireChannel_one_def)
next
  case True
  with assms(2) have "update_channel which
      (\<lambda>c. Inr (c\<lparr>expire := (if ticks > 0 then sdl_ticks + word_of_int ticks else 0)\<rparr>, [])) s =
        Inr s'"
    by (auto simp: Mix_ExpireChannel_one_def split: sum.splits)
  with assms(1) show ?thesis by (rule field_update_inv) simp
qed

lemma expire_all_inv:
  assumes "Mix_ExpireChannel_all now ticks i hi status s = Inr (r, s')" and "open_inv s"
  shows "open_inv s'"
  using assms
proof (induction now ticks i hi status s rule: Mix_ExpireChannel_all.induct)
  case (1 now ticks i hi status s)
  show ?case
  proof (cases "i < hi")
    case False
    with "1.prems" show ?thesis by (subst (asm) Mix_ExpireChannel_all.simps) simp
  next
    case True
    with "1.prems"(1) obtain p s1 where b: "Mix_ExpireChannel_one (now i) i ticks s = Inr (p, s1)"
      and rest: "Mix_ExpireChannel_all now ticks (i + 1) hi (status + p) s1 = Inr (r, s')"
      by (subst (asm) Mix_ExpireChannel_all.simps) (auto split: sum.splits)
    from "1.prems"(2) b have "open_inv s1" by (rule expire_one_inv)
    from "1.IH" [OF True b refl rest this] show ?thesis .
  qed
qed

lemma expire_inv:
  assumes "open_inv s" and "Mix_ExpireChannel now which ticks s = Inr (r, s')"
  shows "open_inv s'"
proof (cases "which = -1")
  case False
  with assms show ?thesis by (simp add: Mix_ExpireChannel_def expire_one_inv)
next
  case True
  with assms(2) have "Mix_ExpireChannel_all now ticks 0 (num_channels s) 0 s = Inr (r, s')"
    by (simp add: Mix_ExpireChannel_def)
  from this assms(1) show ?thesis by (rule expire_all_inv)
qed

lemma mix_inv:
  assumes "open_inv s" and "mix_channels sdl_ticks len s = Inr s'"
  shows "open_inv s'"
proof -
  from assms(2) have "for_channels (mix_channel_i sdl_ticks len) 0 (num_channels s) s = Inr s'"
    by (simp add: mix_channels_def)
  from this assms(1) show ?thesis
  proof (rule for_channels_inv)
    fix i s1 s2
    assume inv: "open_inv s1" and "mix_channel_i sdl_ticks len i s1 = Inr s2"
    then have u: "update_channel i
        (mix_one (channel_done_callback s1) (chunks s1) sdl_ticks len i) s1 = Inr s2"
      by (simp add: mix_channel_i_def)
    show "open_inv s2"
      by (rule open_inv_update [OF inv u]) (rule chan_inv_mix_one)
  qed
qed

lemma free_inv:
  assumes "open_inv s" and "Mix_FreeChunk chunkp s = Inr s'"
  shows "open_inv s'"
proof (cases chunkp)
  case None
  with assms show ?thesis by (simp add: Mix_FreeChunk_def)
next
  case (Some p)
  from assms(1) obtain chs where chs: "mix_channel s = Some chs"
    and n: "num_channels s = int (length chs)"
    and all: "\<forall>k<length chs. chan_inv (frame_width s) (chunks s) (chs ! k)"
    and st: "store_ok (chunks s)"
    by (auto simp: open_inv_def bank_inv_def bank_ok_def the_channels_def list_all_length
        split: option.splits)
  have s1: "free_stop_channels p s = Inr (s\<lparr>mix_channel := Some (map (stop_if_chunk p) chs)\<rparr>)"
    using chs n by (rule free_stop_channels_ok)
  with assms(2) Some have "\<exists>tr.
    s' = s\<lparr>mix_channel := Some (map (stop_if_chunk p) chs),
                chunks := (chunks s)(p := None), trace := tr\<rparr>"
    by (auto simp: Mix_FreeChunk_def free_release_def split: option.splits)
  then obtain tr where
    s': "s' = s\<lparr>mix_channel := Some (map (stop_if_chunk p) chs),
                chunks := (chunks s)(p := None), trace := tr\<rparr>" ..
  show ?thesis
    using n all st
    by (auto simp: s' open_inv_def bank_inv_def bank_ok_def the_channels_def list_all_length
        frame_width_def store_ok_def chan_inv_free)
qed

lemma allocate_inv:
  assumes "open_inv s" and "Mix_AllocateChannels junk N s = Inr (r, s')"
  shows "open_inv s'"
proof (cases "N < 0")
  case True
  with assms show ?thesis by (simp add: Mix_AllocateChannels_def)
next
  case False
  from assms(1) obtain chs where chs: "mix_channel s = Some chs"
    and n: "num_channels s = int (length chs)"
    and all: "\<forall>k<length chs. chan_inv (frame_width s) (chunks s) (chs ! k)"
    and st: "store_ok (chunks s)"
    by (auto simp: open_inv_def bank_inv_def bank_ok_def the_channels_def list_all_length
        split: option.splits)
  from False have N: "0 \<le> N" by simp
  from allocate_channels_ok [OF chs n N, of junk] assms(2)
  have s': "s' = s\<lparr>mix_channel :=
                        Some (take (nat N) chs @
                              map (\<lambda>k. init_channel (junk k)) [length chs..<nat N]),
                      num_channels := N,
                      trace := trace s @
                        concat (map (\<lambda>k. snd (halt_channel (channel_done_callback s) (int k)
                                                 (chs ! k))) [nat N..<length chs])\<rparr>"
    by simp
  from all have all': "list_all (chan_inv (frame_width s) (chunks s)) chs"
    by (simp add: list_all_length)
  then have "list_all (chan_inv (frame_width s) (chunks s)) (take (nat N) chs)"
    by (auto simp: list_all_iff dest: in_set_takeD)
  moreover have "list_all (chan_inv (frame_width s) (chunks s))
                   (map (\<lambda>k. init_channel (junk k)) [length chs..<nat N])"
    by (simp add: list_all_iff chan_inv_default is_default_init)
  ultimately show ?thesis
    using st N
    by (auto simp: s' open_inv_def bank_inv_def bank_ok_def the_channels_def frame_width_def)
qed

lemma play_inv:
  assumes "open_inv s" and "Mix_PlayChannelTimed t which chunkp loops ticks s = Inr (r, s')"
  shows "open_inv s'"
proof (cases chunkp)
  case None
  with assms show ?thesis by (simp add: Mix_PlayChannelTimed_def)
next
  case (Some p)
  with assms(2) obtain ck where ck: "chunks s p = Some ck" and fw: "frame_width s \<noteq> 0"
    by (auto simp: Mix_PlayChannelTimed_def checkchunkintegral_def
        split: option.splits if_splits)
  define ck' where "ck' = ck\<lparr>alen := truncate_alen (frame_width s) (alen ck)\<rparr>"
  define s1 where "s1 = s\<lparr>chunks := (chunks s)(p \<mapsto> ck')\<rparr>"
  from assms(1) have bank: "bank_ok s" and st: "store_ok (chunks s)"
    and all: "list_all (chan_inv (frame_width s) (chunks s)) (the_channels s)"
    by (simp_all add: open_inv_def bank_inv_def)
  have "alen ck < 2 ^ 32" using st ck by (simp add: store_ok_def)
  then have small: "alen ck' < 2 ^ 32"
    using truncate_alen_le [of "frame_width s" "alen ck"] by (simp add: ck'_def)
  have whole: "alen ck' mod frame_width s = 0" by (simp add: ck'_def truncate_alen_mod)
  have fw1: "frame_width s1 = frame_width s" by (simp add: s1_def frame_width_def)
  have h1: "chunks s1 p = Some ck'" by (simp add: s1_def)
  have inv1: "open_inv s1"
  proof -
    have "list_all (chan_inv (frame_width s) ((chunks s)(p \<mapsto> ck'))) (the_channels s)"
      using all chan_inv_truncate [where heap = "chunks s" and p = p and ck = ck] ck
      by (simp add: list_all_iff ck'_def)
    moreover have "store_ok ((chunks s)(p \<mapsto> ck'))"
      using st small by (simp add: store_ok_def)
    ultimately show ?thesis
      using bank
      by (simp add: s1_def open_inv_def bank_inv_def bank_ok_def the_channels_def
          frame_width_def split: option.splits)
  qed
  have "s' = s1 \<or>
        (alen ck' \<noteq> 0 \<and>
         (\<exists>w ev. update_channel w (\<lambda>c. Inr (start_channel t ck' p loops ticks c, ev)) s1 = Inr s'))"
    using assms(2) Some ck fw
    by (auto simp: Mix_PlayChannelTimed_def checkchunkintegral_def Let_def ck'_def s1_def
        split: sum.splits if_splits)
  then show ?thesis
  proof
    assume "s' = s1"
    with inv1 show ?thesis by simp
  next
    assume "alen ck' \<noteq> 0 \<and>
         (\<exists>w ev. update_channel w (\<lambda>c. Inr (start_channel t ck' p loops ticks c, ev)) s1 = Inr s')"
    then obtain w ev where pos: "0 < alen ck'"
      and u: "update_channel w (\<lambda>c. Inr (start_channel t ck' p loops ticks c, ev)) s1 = Inr s'"
      by auto
    show ?thesis
    proof (rule open_inv_update [OF inv1 u])
      fix c c' ev'
      assume "Inr (start_channel t ck' p loops ticks c, ev) =
                (Inr (c', ev') :: fault + Mix_Channel \<times> event list)"
      then have "c' = start_channel t ck' p loops ticks c" by simp
      then show "chan_inv (frame_width s1) (chunks s1) c'"
        using chan_inv_start [where heap = "chunks s1" and p = p and ck' = ck'
            and fw = "frame_width s" and t = t and loops = loops and ticks = ticks and c = c]
          h1 pos small whole fw1 by simp
    qed
  qed
qed

text \<open>
  Every state of an open mixer satisfies the invariant: in particular no channel is ever
  fading, and a channel with no bytes left has no repeats left.
\<close>

theorem reachable_inv: "reachable s \<Longrightarrow> open_inv s"
proof (induction rule: reachable.induct)
  case (r_open s)
  then show ?case by (rule opened_inv)
next
  case (r_load s p ck)
  then show ?case by (simp add: load_inv)
next
  case (r_free s chunkp s')
  then show ?case by (simp add: free_inv)
next
  case (r_allocate s junk n r s')
  from r_allocate.IH r_allocate.hyps(2) show ?case by (rule allocate_inv)
next
  case (r_play s sdl_ticks which chunkp loops ticks r s')
  from r_play.IH r_play.hyps(2) show ?case by (rule play_inv)
next
  case (r_expire s now which ticks r s')
  from r_expire.IH r_expire.hyps(2) show ?case by (rule expire_inv)
next
  case (r_volume s which v r s')
  from r_volume.IH r_volume.hyps(2) show ?case by (rule volume_inv)
next
  case (r_halt s which s')
  from r_halt.IH r_halt.hyps(2) show ?case by (rule halt_inv)
next
  case (r_pause s sdl_ticks which s')
  from r_pause.IH r_pause.hyps(2) show ?case by (rule pause_inv)
next
  case (r_resume s sdl_ticks which s')
  from r_resume.IH r_resume.hyps(2) show ?case by (rule resume_inv)
next
  case (r_group s "from" to t r s')
  from r_group.hyps(2) r_group.IH show ?case by (rule groups_inv)
next
  case (r_group1 s which t r s')
  from r_group1.IH r_group1.hyps(2) show ?case by (rule group_inv)
next
  case (r_reserve s num)
  then show ?case
    by (auto intro: open_inv_env simp: Mix_ReserveChannels_def Let_def)
next
  case (r_finished s cb)
  then show ?case
    by (auto intro: open_inv_env simp: Mix_ChannelFinished_def)
next
  case (r_mix s sdl_ticks len s')
  from r_mix.IH r_mix.hyps(2) show ?case by (rule mix_inv)
qed

corollary reachable_bank_inv: "reachable s \<Longrightarrow> bank_inv s"
  using reachable_inv [of s] by (simp add: open_inv_def)

section \<open>Expiration and notification\<close>


text \<open>
  An instance: the chunk is played on channel 0 at tick 5 with a limit of 3 ticks, which
  sets the deadline 8; the callback at tick 10, with an empty buffer, stops the channel
  and notifies, and the channel is as \<^verbatim>\<open>Mix_HaltChannel\<close> leaves it.
\<close>

lemma ex_timed_play: "Mix_PlayChannelTimed 5 0 (Some 1) 0 3 ex_mixer = Inr (0, ex_timed)"
  by (simp add: play_eval ex_eval ex_timed_def fun_upd_idem_iff)

lemma ex_mixer_opened: "opened ex_mixer"
  by (simp add: opened_def bank_ok_def the_channels_def is_default_def store_ok_def
      ex_mixer_def ex_channel_def ex_chunk_def SDL_MIX_MAXVOLUME_def)

lemma ex_timed_reachable: "reachable ex_timed"
  using r_play [OF r_open [OF ex_mixer_opened] ex_timed_play] .



text \<open>
  With a fade in progress, which only the spec's fade request could start, the two paths
  would differ: at volume 30 with the reset value 128 and the deadline 5 passed at tick
  10, the expiry branch leaves the volume at 30 and \<^verbatim>\<open>Mix_HaltChannel\<close> restores it to
  128.
\<close>

lemma expiry_during_fade_keeps_volume:
  "mix_channels 10 0 (ex_mixer1 (ex_fading\<lparr>volume := 30, expire := 5\<rparr>)) =
     Inr ((ex_mixer1 (ex_fading\<lparr>volume := 30, expire := 0, playing := 0,
                                 fading := MIX_NO_FADING\<rparr>))\<lparr>trace := [Channel_Done 0]\<rparr>) \<and>
   Mix_HaltChannel 0 (ex_mixer1 (ex_fading\<lparr>volume := 30, expire := 5\<rparr>)) =
     Inr ((ex_mixer1 (ex_fading\<lparr>volume := 128, expire := 0, playing := 0,
                                 fading := MIX_NO_FADING\<rparr>))\<lparr>trace := [Channel_Done 0]\<rparr>)"
  by (simp add: ex_eval)

text \<open>Without a fade in progress, and on a playing channel, the two paths agree.\<close>

lemma expiry_as_halt_without_fade:
  assumes "fading c = MIX_NO_FADING" and "playing c \<noteq> 0" and "paused c = 0"
    and "0 < expire c" and "expire c < sdl_ticks"
  shows "mix_one cb heap sdl_ticks len i c = Inr (halt_channel cb i c)"
  using assms
  by (simp add: mix_one_def expire_fade_def mix_samples_idle halt_channel_def Let_def)

text \<open>
  Claim C6, as stated, fails: \<^verbatim>\<open>Mix_FreeChunk\<close> stops the channels that play the chunk
  without calling the callback. Channel 0 is active before and inactive after, and the
  registered callback has not been called for it.
\<close>

theorem free_chunk_is_silent:
  "is_active (the_channels ex_two_playing ! 0) \<and> channel_done_callback ex_two_playing \<and>
   (case Mix_FreeChunk (Some 1) ex_two_playing of
      Inl e \<Rightarrow> False
    | Inr s' \<Rightarrow> \<not> is_active (the_channels s' ! 0) \<and> done_count 0 (trace s') = 0)"
  by (simp add: Mix_FreeChunk_def free_stop_channels_def free_release_def stop_if_chunk_def
      for_channels.simps update_channel_def is_active_def the_channels_def
      ex_two_playing_def ex_mixer_def ex_channel_def ex_chunk_def)

text \<open>
  The last repeat can also end inside the second loop of the mixing callback, which
  never calls the callback: a chunk of 4 bytes with one repeat left and a buffer of 8
  bytes ends inactive with two \<^verbatim>\<open>SDL_MixAudio\<close> calls and no notification.
\<close>

lemma final_repeat_in_wrap_is_silent:
  "mix_channels 0 8 (ex_mixer1 (ex_playing\<lparr>looping := 1, samples := 1000\<rparr>)) =
     Inr ((ex_mixer1 (ex_playing\<lparr>looping := 0, samples := 1004, playing := 0\<rparr>))
            \<lparr>trace := [Mix_Audio 0 0 1000 4 128, Mix_Audio 0 4 1000 4 128]\<rparr>)"
  by (simp add: ex_eval)

lemma halt_notifies:
  assumes "is_active c" and "\<not> is_active (fst (halt_channel True i c))"
  shows "snd (halt_channel True i c) = [Channel_Done i]"
  using assms
  by (auto simp: halt_channel_def is_active_def Mix_channel_done_playing_def Let_def
      split: if_splits)

lemma mix_one_notifies:
  assumes ok: "chan_ok heap c" and act: "is_active c"
    and one: "mix_one True heap sdl_ticks len i c = Inr (c', ev)"
    and ina: "\<not> is_active c'"
    and how: "looping c = 0 \<or> (0 < expire c \<and> expire c < sdl_ticks) \<or>
              (fading c = MIX_FADING_OUT \<and> fade_length c < sdl_ticks - ticks_fade c)"
  shows "done_count i ev = 1"
proof -
  have p0: "paused c = 0"
  proof (rule ccontr)
    assume "paused c \<noteq> 0"
    with one have "c' = c" by (simp add: mix_one_def)
    with act ina show False by simp
  qed
  from expire_fade_total [OF ok, of True sdl_ticks i i] obtain c1 ev1
    where ef: "expire_fade True sdl_ticks i c = Inr (c1, ev1)" and ok1: "chan_ok heap c1"
    by blast
  from one p0 ef obtain ev2 where ms: "mix_samples True heap len i c1 = Inr (c', ev2)"
    and ev: "ev = ev1 @ ev2"
    by (auto simp: mix_one_def split: sum.splits)
  consider (stop) "(0 < expire c \<and> expire c < sdl_ticks) \<or>
                   (fading c = MIX_FADING_OUT \<and> fade_length c < sdl_ticks - ticks_fade c)"
    | (go) "\<not> (0 < expire c \<and> expire c < sdl_ticks)"
           "\<not> (fading c = MIX_FADING_OUT \<and> fade_length c < sdl_ticks - ticks_fade c)"
    by blast
  then show ?thesis
  proof cases
    case stop
    with ef have "playing c1 = 0 \<and> ev1 = [Channel_Done i]"
      by (auto simp: expire_fade_def Let_def Mix_channel_done_playing_def split: if_splits)
    with ms ev show ?thesis by (simp add: mix_samples_idle)
  next
    case go
    with how have l0: "looping c = 0" by blast
    from go ef have e1: "ev1 = []" and pl1: "playing c1 = playing c \<and> looping c1 = looping c"
      by (auto simp: expire_fade_def Let_def split: if_splits)
    from act l0 have pos: "0 < playing c" by (simp add: is_active_def)
    with pl1 have pos1: "0 < playing c1" by simp
    with ok1 obtain ck where ck: "chunk_of heap c1 = Some ck" "0 < alen ck"
      and sm: "alen ck < 2 ^ 31"
      by (auto simp: chan_ok_def split: option.splits)
    have len: "0 \<le> len"
    proof (rule ccontr)
      assume "\<not> 0 \<le> len"
      with ms pos1 have "c' = c1" by (simp add: mix_samples_empty)
      with pos1 ina show False by (simp add: is_active_def)
    qed
    from mix_samples_run [OF ck pos1 len sm, of True i]
    obtain c2 evs where r: "mix_samples True heap len i c1 = Inr (c2, evs)"
      and f: "0 \<le> looping c1 \<longrightarrow>
              0 \<le> looping c2 \<and> 0 \<le> playing c2 \<and> (playing c2 = 0 \<longrightarrow> looping c2 = 0) \<and>
              bytes_mixed i evs = min len (playing c1 + looping c1 * int (alen ck)) \<and>
              playing c2 + looping c2 * int (alen ck) =
                playing c1 + looping c1 * int (alen ck) - bytes_mixed i evs"
      and d: "looping c1 = 0 \<longrightarrow> looping c2 = 0 \<and>
              done_count i evs = (if True \<and> playing c1 \<le> len then 1 else 0)"
      by blast
    from r ms have e: "c2 = c'" "evs = ev2" by simp_all
    from pl1 l0 have l1: "looping c1 = 0" by simp
    from f l1 d have pc: "playing c2 = playing c1 - min len (playing c1)" by simp
    from ina e have "playing c2 \<le> 0" by (simp add: is_active_def)
    with pc have "playing c1 \<le> len" by (simp add: min_def split: if_splits)
    with d l1 e ev e1 show ?thesis by simp
  qed
qed

text \<open>
  Claim C6, amended. For an active channel \<open>w\<close> of a well-formed bank with a registered
  callback:
  \<^item> \<^verbatim>\<open>Mix_HaltChannel\<close> on \<open>w\<close> succeeds, and if it leaves the channel inactive it has
    called the callback for \<open>w\<close>, and nothing else;
  \<^item> \<^verbatim>\<open>Mix_PlayChannelTimed\<close> on \<open>w\<close> with a chunk of positive frame-truncated length
    calls the callback for \<open>w\<close> before it overwrites the channel;
  \<^item> the mixing callback succeeds, and if it leaves the channel inactive after the
    deadline has passed, or a fade-out has run its length, or a channel with no repeats
    left (\<open>looping = 0\<close>) has been played to its end, it has called the callback for \<open>w\<close>
    exactly once;
  \<^item> \<^verbatim>\<open>Mix_FreeChunk\<close> of the chunk that \<open>w\<close> plays leaves the channel inactive and
    does not call the callback.
\<close>

theorem stop_transitions_notify:
  assumes "bank_wf s" and "mix_channel s = Some chs" and "w < length chs" and "c = chs ! w"
    and "channel_done_callback s" and "is_active c"
  shows "(\<exists>s'. Mix_HaltChannel (int w) s = Inr s' \<and>
               (\<not> is_active (the_channels s' ! w) \<longrightarrow>
                  trace s' = trace s @ [Channel_Done (int w)])) \<and>
         (chunks s p = Some ck \<and> frame_width s \<noteq> 0 \<and>
          0 < truncate_alen (frame_width s) (alen ck) \<longrightarrow>
            (\<exists>s'. Mix_PlayChannelTimed t (int w) (Some p) loops ticks s = Inr (int w, s') \<and>
                  trace s' = trace s @ [Channel_Done (int w)])) \<and>
         (\<exists>s'. mix_channels sdl_ticks len s = Inr s' \<and>
               (\<not> is_active (the_channels s' ! w) \<and>
                (looping c = 0 \<or> (0 < expire c \<and> expire c < sdl_ticks) \<or>
                 (fading c = MIX_FADING_OUT \<and> fade_length c < sdl_ticks - ticks_fade c)) \<longrightarrow>
                  done_count (int w) (trace s') = done_count (int w) (trace s) + 1)) \<and>
         (chunk c = Some p \<and> chunks s p = Some ck \<longrightarrow>
            (\<exists>s'. Mix_FreeChunk (Some p) s = Inr s' \<and>
                  \<not> is_active (the_channels s' ! w) \<and>
                  done_count (int w) (trace s') = done_count (int w) (trace s)))"
proof -
  from assms(1,2) have n: "num_channels s = int (length chs)" and bok: "bank_ok s"
    and ok: "\<forall>k<length chs. chan_ok (chunks s) (chs ! k)"
    by (auto simp: bank_wf_def bank_ok_def the_channels_def list_all_length)
  have halt: "\<exists>s'. Mix_HaltChannel (int w) s = Inr s' \<and>
               (\<not> is_active (the_channels s' ! w) \<longrightarrow>
                  trace s' = trace s @ [Channel_Done (int w)])"
  proof -
    let ?h = "halt_channel True (int w) c"
    let ?s' = "s\<lparr>mix_channel := Some (chs[w := fst ?h]), trace := trace s @ snd ?h\<rparr>"
    have "Mix_HaltChannel (int w) s = Inr ?s'"
      using assms(2,3,4,5) n
      by (simp add: Mix_HaltChannel_def Mix_HaltChannel_one_def update_channel_def
          split: prod.splits)
    moreover have "the_channels ?s' ! w = fst ?h"
      using assms(3) by (simp add: the_channels_def)
    ultimately show ?thesis
      using halt_notifies [OF assms(6), of "int w"] by auto
  qed
  have play: "\<exists>s'. Mix_PlayChannelTimed t (int w) (Some p) loops ticks s = Inr (int w, s') \<and>
                  trace s' = trace s @ [Channel_Done (int w)]"
    if "chunks s p = Some ck" "frame_width s \<noteq> 0" "0 < truncate_alen (frame_width s) (alen ck)"
  proof -
    define ck' where "ck' = ck\<lparr>alen := truncate_alen (frame_width s) (alen ck)\<rparr>"
    define s1 where "s1 = s\<lparr>chunks := (chunks s)(p \<mapsto> ck'),
        mix_channel := Some (chs[nat (int w) :=
                               start_channel t ck' p loops ticks (chs ! nat (int w))]),
        trace := trace s @ (if is_active (chs ! nat (int w))
                            then Mix_channel_done_playing (channel_done_callback s) (int w)
                            else [])\<rparr>"
    have "Mix_PlayChannelTimed t (int w) (Some p) loops ticks s = Inr (int w, s1)"
      by (rule play_channel_ok [OF assms(1,2) _ _ that ck'_def s1_def]) (use assms(3) in simp_all)
    moreover have "trace s1 = trace s @ [Channel_Done (int w)]"
      using assms(4,5,6) by (simp add: s1_def Mix_channel_done_playing_def)
    ultimately show ?thesis by blast
  qed
  have mix: "\<exists>s'. mix_channels sdl_ticks len s = Inr s' \<and>
               (\<not> is_active (the_channels s' ! w) \<and>
                (looping c = 0 \<or> (0 < expire c \<and> expire c < sdl_ticks) \<or>
                 (fading c = MIX_FADING_OUT \<and> fade_length c < sdl_ticks - ticks_fade c)) \<longrightarrow>
                  done_count (int w) (trace s') = done_count (int w) (trace s) + 1)"
  proof -
    from mix_channels_step [OF assms(1,2,3), of sdl_ticks len] obtain s' c' ev where
      step: "mix_channels sdl_ticks len s = Inr s'"
      and one: "mix_one (channel_done_callback s) (chunks s) sdl_ticks len (int w) (chs ! w) =
                  Inr (c', ev)"
      and c': "the_channels s' ! w = c'"
      and d: "done_count (int w) (trace s') =
                done_count (int w) (trace s) + done_count (int w) ev"
      by blast
    from one assms(4,5) have one': "mix_one True (chunks s) sdl_ticks len (int w) c = Inr (c', ev)"
      by simp
    from ok assms(3,4) have okc: "chan_ok (chunks s) c" by simp
    have "done_count (int w) ev = 1"
      if "\<not> is_active c'" "looping c = 0 \<or> (0 < expire c \<and> expire c < sdl_ticks) \<or>
                 (fading c = MIX_FADING_OUT \<and> fade_length c < sdl_ticks - ticks_fade c)"
      using mix_one_notifies [OF okc assms(6) one' that] .
    with step c' d show ?thesis by auto
  qed
  have free: "\<exists>s'. Mix_FreeChunk (Some p) s = Inr s' \<and>
                  \<not> is_active (the_channels s' ! w) \<and>
                  done_count (int w) (trace s') = done_count (int w) (trace s)"
    if "chunk c = Some p" "chunks s p = Some ck"
  proof -
    let ?s1 = "s\<lparr>mix_channel := Some (map (stop_if_chunk p) chs)\<rparr>"
    have st: "free_stop_channels p s = Inr ?s1"
      using assms(2) n by (rule free_stop_channels_ok)
    have "Mix_FreeChunk (Some p) s =
            Inr (?s1\<lparr>chunks := (chunks s)(p := None),
                      trace := trace s @ (if allocated ck \<noteq> 0 then [Free_Mem (abuf ck)] else [])\<rparr>)"
      using st that(2) by (simp add: Mix_FreeChunk_def free_release_def)
    moreover have "\<not> is_active (stop_if_chunk p (chs ! w))"
      using that(1) assms(4) by (simp add: stop_if_chunk_def is_active_def)
    ultimately show ?thesis
      using assms(3) by (auto simp: the_channels_def)
  qed
  from halt play mix free show ?thesis by blast
qed

lemma ex_playing_facts:
  "bank_wf (ex_mixer1 ex_playing)" "mix_channel (ex_mixer1 ex_playing) = Some [ex_playing]"
  "channel_done_callback (ex_mixer1 ex_playing)" "is_active ex_playing"
  by (simp_all add: bank_wf_def bank_ok_def the_channels_def chan_ok_def chunk_of_def
      is_active_def ex_mixer1_def ex_mixer_def ex_playing_def ex_channel_def ex_chunk_def)

theorem stop_transitions_notify_witness:
  "Mix_HaltChannel 0 (ex_mixer1 ex_playing) =
     Inr ((ex_mixer1 (ex_playing\<lparr>playing := 0\<rparr>))\<lparr>trace := [Channel_Done 0]\<rparr>) \<and>
   (\<exists>s'. mix_channels 0 4 (ex_mixer1 ex_playing) = Inr s' \<and>
         playing (the_channels s' ! 0) = 0 \<and> done_count 0 (trace s') = 1)"
proof -
  have w: "(0 :: nat) < length [ex_playing]" and c: "ex_playing = [ex_playing] ! 0"
    by simp_all
  note th = stop_transitions_notify [where sdl_ticks = 0 and len = 4 and p = 1
      and ck = ex_chunk and t = 0 and loops = 0 and ticks = 0,
      OF ex_playing_facts(1,2) w c ex_playing_facts(3,4)]
  from th have "\<exists>s'. mix_channels 0 4 (ex_mixer1 ex_playing) = Inr s' \<and>
               (\<not> is_active (the_channels s' ! 0) \<and>
                (looping ex_playing = 0 \<or> (0 < expire ex_playing \<and> expire ex_playing < 0) \<or>
                 (fading ex_playing = MIX_FADING_OUT \<and>
                  fade_length ex_playing < 0 - ticks_fade ex_playing)) \<longrightarrow>
                  done_count (int 0) (trace s') =
                    done_count (int 0) (trace (ex_mixer1 ex_playing)) + 1)"
    by blast
  then obtain s' where m: "mix_channels 0 4 (ex_mixer1 ex_playing) = Inr s'"
    and d: "\<not> is_active (the_channels s' ! 0) \<and> looping ex_playing = 0 \<longrightarrow>
            done_count 0 (trace s') = done_count 0 (trace (ex_mixer1 ex_playing)) + 1"
    by auto
  have e: "mix_channels 0 4 (ex_mixer1 ex_playing) =
     Inr ((ex_mixer1 (ex_playing\<lparr>samples := 4, playing := 0\<rparr>))
            \<lparr>trace := [Mix_Audio 0 0 0 4 128, Channel_Done 0]\<rparr>)"
    by (simp add: ex_eval)
  with m have s': "s' = (ex_mixer1 (ex_playing\<lparr>samples := 4, playing := 0\<rparr>))
            \<lparr>trace := [Mix_Audio 0 0 0 4 128, Channel_Done 0]\<rparr>" by simp
  have ina: "\<not> is_active (the_channels s' ! 0)" "looping ex_playing = 0"
    "trace (ex_mixer1 ex_playing) = []" "playing (the_channels s' ! 0) = 0"
    unfolding s'
    by (simp_all add: is_active_def the_channels_def ex_mixer1_def ex_mixer_def ex_playing_def
        ex_channel_def)
  with d have "done_count 0 (trace s') = 1" by simp
  moreover have "Mix_HaltChannel 0 (ex_mixer1 ex_playing) =
     Inr ((ex_mixer1 (ex_playing\<lparr>playing := 0\<rparr>))\<lparr>trace := [Channel_Done 0]\<rparr>)"
    by (simp add: ex_eval)
  ultimately show ?thesis using m ina(4) by simp
qed

section \<open>Pause and resume on all channels\<close>

text \<open>
  The broadcast forms (\<open>which = -1\<close>) apply the same step to every channel, and the mixing
  callback leaves a paused channel untouched, deadline included.
\<close>

lemma map_channels_loop:
  assumes "mix_channel s = Some chs" and "num_channels s = int (length chs)"
  shows "for_channels (\<lambda>i. update_channel i (\<lambda>c. Inr (g c, []))) 0 (num_channels s) s =
           Inr (s\<lparr>mix_channel := Some (map g chs)\<rparr>)"
proof -
  have "\<exists>chs'. for_channels (\<lambda>i. update_channel i (\<lambda>c. Inr (g c, []))) (int 0)
                  (int (length chs)) s =
             Inr (s\<lparr>mix_channel := Some chs',
                    trace := trace s @ concat (map (\<lambda>k. []) [0..<length chs])\<rparr>) \<and>
           length chs' = length chs \<and>
           (\<forall>j<length chs. chs' ! j =
              (if 0 \<le> j \<and> j < length chs then g (chs ! j) else chs ! j))"
    by (rule for_channels_update [where f = "\<lambda>k c. Inr (g c, [])"]) (use assms in simp_all)
  then obtain chs' where r: "for_channels (\<lambda>i. update_channel i (\<lambda>c. Inr (g c, []))) 0
                  (int (length chs)) s = Inr (s\<lparr>mix_channel := Some chs'\<rparr>)"
    and len: "length chs' = length chs"
    and nth: "\<forall>j<length chs. chs' ! j = g (chs ! j)"
    by (auto simp: concat_map_Nil)
  have "chs' = map g chs"
    using len nth by (intro nth_equalityI) simp_all
  with r assms show ?thesis by simp
qed

lemma pause_all:
  assumes "mix_channel s = Some chs" and "num_channels s = int (length chs)"
  shows "Mix_Pause t0 (-1) s = Inr (s\<lparr>mix_channel := Some (map (pause_channel t0) chs)\<rparr>)"
proof -
  have "Mix_Pause_one t0 = (\<lambda>i. update_channel i (\<lambda>c. Inr (pause_channel t0 c, [])))"
    by (intro ext) (simp add: Mix_Pause_one_def)
  then show ?thesis
    using map_channels_loop [OF assms, of "pause_channel t0"] by (simp add: Mix_Pause_def)
qed

lemma resume_all:
  assumes "mix_channel s = Some chs" and "num_channels s = int (length chs)"
  shows "Mix_Resume t1 (-1) s = Inr (s\<lparr>mix_channel := Some (map (resume_channel t1) chs)\<rparr>)"
proof -
  have "Mix_Resume_one t1 = (\<lambda>i. update_channel i (\<lambda>c. Inr (resume_channel t1 c, [])))"
    by (intro ext) (simp add: Mix_Resume_one_def)
  then show ?thesis
    using map_channels_loop [OF assms, of "resume_channel t1"] by (simp add: Mix_Resume_def)
qed

lemma resume_after_pause_channel:
  assumes "0 < playing c" and "expire c \<noteq> 0"
  shows "resume_channel t1 (pause_channel t0 c) = c\<lparr>expire := expire c + (t1 - t0), paused := 0\<rparr>"
  using assms by (simp add: resume_channel_def pause_channel_def Let_def word_greater_zero_iff)

lemma mix_one_paused:
  "paused c \<noteq> 0 \<Longrightarrow> mix_one cb heap sdl_ticks len i c = Inr (c, [])"
  by (simp add: mix_one_def)

section \<open>Side conditions of the fade\<close>

text \<open>
  The side conditions of the amended claim are needed: the product is formed in 32 bits,
  so a fade of \<open>2 ^ 26\<close> ticks from volume 128 is at volume 0, not 64, half way through;
  and \<^verbatim>\<open>Mix_Volume\<close> ignores a negative reset value and clips one above the maximum.
\<close>

lemma fade_half_wraps:
  "expire_fade cb 33554432 i (ex_fading\<lparr>fade_length := 67108864\<rparr>) =
     Inr (ex_fading\<lparr>fade_length := 67108864, volume := 0\<rparr>, [])"
  by (simp add: expire_fade_def set_volume_def ex_fading_def ex_channel_def
      SDL_MIX_MAXVOLUME_def Let_def)

lemma fade_reset_clipped:
  "volume (set_volume (-1) c) = volume c" "volume (set_volume 200 c) = SDL_MIX_MAXVOLUME"
  by (simp_all add: set_volume_def SDL_MIX_MAXVOLUME_def)

end
